theory Spec2Isabelle
  imports Complex_Main
begin

section \<open>Decimal amounts\<close>

text \<open>
  Every amount of \<^verbatim>\<open>pep_tipbot.py\<close> is a Python \<^verbatim>\<open>Decimal\<close>, and the module sets
  \<^verbatim>\<open>getcontext().prec = 18\<close>. A finite Decimal denotes a rational number, so the
  model's amounts are of type \<open>rat\<close>. Constructing a Decimal from text, comparing two
  Decimals and printing one are exact; the arithmetic operations \<^verbatim>\<open>+ - * /\<close> return the
  exact result rounded to 18 significant digits, ties to the even digit
  (\<^verbatim>\<open>ROUND_HALF_EVEN\<close>, the context's default). The rounding is written out below.
  Not modelled: NaN and the infinities (a handler never stores one: a comparison with
  NaN raises before any write, and an infinite amount never passes a balance check),
  and the exponent limits of the context (\<open>\<plusminus>999999\<close>).
\<close>

type_synonym decimal = rat

function ndigits :: "int \<Rightarrow> nat" where
  "ndigits n = (if n < 10 then 1 else Suc (ndigits (n div 10)))"
  by pat_completeness auto
termination
  by (relation "measure nat") auto

declare ndigits.simps [simp del]

text \<open>The exponent of the leading digit of a positive value: \<open>10^e \<le> x < 10^(e+1)\<close>.\<close>

definition adjusted :: "decimal \<Rightarrow> int" where
  "adjusted x = (if 1 \<le> x then int (ndigits \<lfloor>x\<rfloor>) - 1
                 else - int (ndigits (\<lceil>1 / x\<rceil> - 1)))"

definition pow10 :: "int \<Rightarrow> decimal" where
  "pow10 k = (if 0 \<le> k then 10 ^ nat k else 1 / 10 ^ nat (- k))"

definition round_half_even :: "decimal \<Rightarrow> int" where
  "round_half_even y =
     (let f = \<lfloor>y\<rfloor>; r = y - of_int f
      in if r < 1 / 2 then f else if 1 / 2 < r then f + 1 else if even f then f else f + 1)"

text \<open>Rounding to the context precision of 18 significant digits.\<close>

definition ctx_round :: "decimal \<Rightarrow> decimal" where
  "ctx_round x =
     (if x = 0 then 0
      else let q = pow10 (adjusted \<bar>x\<bar> - 17)
           in sgn x * of_int (round_half_even (\<bar>x\<bar> / q)) * q)"

definition dec_add :: "decimal \<Rightarrow> decimal \<Rightarrow> decimal" where
  "dec_add x y = ctx_round (x + y)"

definition dec_sub :: "decimal \<Rightarrow> decimal \<Rightarrow> decimal" where
  "dec_sub x y = ctx_round (x - y)"

definition dec_mul :: "decimal \<Rightarrow> decimal \<Rightarrow> decimal" where
  "dec_mul x y = ctx_round (x * y)"

definition dec_div :: "decimal \<Rightarrow> decimal \<Rightarrow> decimal" where
  "dec_div x y = ctx_round (x / y)"

datatype py_error = InvalidOperation | TypeError | RuntimeError

text \<open>
  \<^verbatim>\<open>x.quantize(Decimal("0.00000001"), rounding=ROUND_DOWN)\<close>: truncation towards zero at
  the eighth decimal place; \<^verbatim>\<open>InvalidOperation\<close> is raised when the result would need
  more than 18 digits.
\<close>

definition trunc_int :: "decimal \<Rightarrow> int" where
  "trunc_int y = (if 0 \<le> y then \<lfloor>y\<rfloor> else \<lceil>y\<rceil>)"

definition quantize8 :: "decimal \<Rightarrow> py_error + decimal" where
  "quantize8 x =
     (let c = trunc_int (x * 10 ^ 8)
      in if 10 ^ 18 \<le> \<bar>c\<bar> then Inl InvalidOperation else Inr (of_int c / 10 ^ 8))"

text \<open>An amount on the grid of the coin's smallest unit, \<open>10^-8\<close>.\<close>

definition on_grid :: "decimal \<Rightarrow> bool" where
  "on_grid x \<longleftrightarrow> of_int \<lfloor>x * 10 ^ 8\<rfloor> = x * 10 ^ 8"

section \<open>The binary float of a send\<close>

function nbits :: "int \<Rightarrow> nat" where
  "nbits n = (if n < 2 then 1 else Suc (nbits (n div 2)))"
  by pat_completeness auto
termination
  by (relation "measure nat") auto

declare nbits.simps [simp del]

text \<open>The exponent of the leading bit of a positive value: \<open>2^e \<le> x < 2^(e+1)\<close>.\<close>

definition bexp :: "rat \<Rightarrow> int" where
  "bexp x = (if 1 \<le> x then int (nbits \<lfloor>x\<rfloor>) - 1
             else - int (nbits (\<lceil>1 / x\<rceil> - 1)))"

definition pow2 :: "int \<Rightarrow> rat" where
  "pow2 k = (if 0 \<le> k then 2 ^ nat k else 1 / 2 ^ nat (- k))"

text \<open>
  \<^verbatim>\<open>float(x)\<close> for a finite Decimal \<open>x\<close>: the conversion goes through the decimal text of
  \<open>x\<close> and returns the binary64 value nearest to \<open>x\<close>, ties to the even significand. The
  significand has 53 bits; below \<open>2^-1022\<close> the values are the multiples of \<open>2^-1074\<close>;
  a result of \<open>2^1024\<close> or more is an infinity. The sign of a zero result is not kept.
\<close>

datatype pyfloat = FloatVal rat | FloatInf | FloatNegInf

definition float_of :: "decimal \<Rightarrow> pyfloat" where
  "float_of x =
     (if x = 0 then FloatVal 0
      else let q = pow2 (max (bexp \<bar>x\<bar> - 52) (- 1074));
               y = of_int (round_half_even (\<bar>x\<bar> / q)) * q
           in if pow2 1024 \<le> y then (if 0 < x then FloatInf else FloatNegInf)
              else FloatVal (sgn x * y))"

section \<open>Storage: the two SQLite tables\<close>

record user =
  username :: string
  deposit_address :: "string option"
  credited_total :: decimal
  balance :: decimal
  last_faucet_ts :: int
  last_active_ts :: int
  created_ts :: int

datatype kind = Deposit | Tip | Withdraw | Faucet

record transfer =
  kind :: kind
  from_tg :: "int option"
  to_tg :: "int option"
  amount :: decimal
  txid :: "string option"
  ts :: int

text \<open>
  The table \<^verbatim>\<open>users\<close> is a list of rows keyed by \<^verbatim>\<open>tg_id\<close> (its primary key), kept in
  key order, the order in which SQLite scans a table whose key is the row id. The table
  \<^verbatim>\<open>transfers\<close> is the list of its rows in insertion order.
\<close>

record db =
  users :: "(int \<times> user) list"
  transfers :: "transfer list"

definition empty_db :: db where
  "empty_db = \<lparr>users = [], transfers = []\<rparr>"

text \<open>The values read from the environment at start-up.\<close>

record config =
  FAUCET_AMOUNT :: decimal
  FAUCET_INTERVAL :: int
  WITHDRAW_FEE :: decimal
  ACTIVE_WINDOW :: int

definition db_get_user :: "db \<Rightarrow> int \<Rightarrow> user option" where
  "db_get_user d tg_id = map_of (users d) tg_id"

text \<open>\<^verbatim>\<open>UPDATE users SET ... WHERE tg_id=?\<close>\<close>

definition update_rows :: "int \<Rightarrow> (user \<Rightarrow> user) \<Rightarrow> (int \<times> user) list \<Rightarrow> (int \<times> user) list" where
  "update_rows tg_id f rows = map (\<lambda>(k, u). if k = tg_id then (k, f u) else (k, u)) rows"

definition update_user :: "int \<Rightarrow> (user \<Rightarrow> user) \<Rightarrow> db \<Rightarrow> db" where
  "update_user tg_id f d = d\<lparr>users := update_rows tg_id f (users d)\<rparr>"

text \<open>\<^verbatim>\<open>INSERT INTO users\<close>\<close>

fun insert_row :: "int \<times> user \<Rightarrow> (int \<times> user) list \<Rightarrow> (int \<times> user) list" where
  "insert_row r [] = [r]"
| "insert_row r (x # xs) = (if fst r < fst x then r # x # xs else x # insert_row r xs)"

definition db_upsert_user :: "int \<Rightarrow> int \<Rightarrow> string \<Rightarrow> db \<Rightarrow> db" where
  "db_upsert_user now tg_id uname d =
     (case db_get_user d tg_id of
        Some u \<Rightarrow> update_user tg_id (\<lambda>u. u\<lparr>username := uname, last_active_ts := now\<rparr>) d
      | None \<Rightarrow>
          d\<lparr>users := insert_row
                (tg_id, \<lparr>username = uname, deposit_address = None, credited_total = 0,
                         balance = 0, last_faucet_ts = 0, last_active_ts = now,
                         created_ts = now\<rparr>)
                (users d)\<rparr>)"

definition db_update_balance :: "int \<Rightarrow> decimal \<Rightarrow> db \<Rightarrow> db" where
  "db_update_balance tg_id new_balance d = update_user tg_id (\<lambda>u. u\<lparr>balance := new_balance\<rparr>) d"

definition db_add_transfer ::
  "int \<Rightarrow> kind \<Rightarrow> int option \<Rightarrow> int option \<Rightarrow> decimal \<Rightarrow> string option \<Rightarrow> db \<Rightarrow> db" where
  "db_add_transfer now k f t a x d =
     d\<lparr>transfers := transfers d @
          [\<lparr>kind = k, from_tg = f, to_tg = t, amount = a, txid = x, ts = now\<rparr>]\<rparr>"

definition db_set_deposit_address :: "int \<Rightarrow> string \<Rightarrow> db \<Rightarrow> db" where
  "db_set_deposit_address tg_id addr d = update_user tg_id (\<lambda>u. u\<lparr>deposit_address := Some addr\<rparr>) d"

definition db_set_credited_total :: "int \<Rightarrow> decimal \<Rightarrow> db \<Rightarrow> db" where
  "db_set_credited_total tg_id tot d = update_user tg_id (\<lambda>u. u\<lparr>credited_total := tot\<rparr>) d"

definition db_set_last_faucet :: "int \<Rightarrow> int \<Rightarrow> db \<Rightarrow> db" where
  "db_set_last_faucet tg_id t d = update_user tg_id (\<lambda>u. u\<lparr>last_faucet_ts := t\<rparr>) d"

definition db_set_active :: "int \<Rightarrow> int \<Rightarrow> db \<Rightarrow> db" where
  "db_set_active now tg_id d = update_user tg_id (\<lambda>u. u\<lparr>last_active_ts := now\<rparr>) d"

section \<open>The wallet node and the deposit address\<close>

text \<open>
  The answers of the wallet node are inputs of the model: \<open>None\<close> stands for a call of
  \<^verbatim>\<open>rpc.call\<close> that raises. \<open>new_addr\<close> is the node's answer to \<^verbatim>\<open>getnewaddress\<close>.
\<close>

definition get_or_create_deposit_address ::
  "string option \<Rightarrow> int \<Rightarrow> db \<Rightarrow> (py_error + string) \<times> db" where
  "get_or_create_deposit_address new_addr tg_id d =
     (let create = (case new_addr of
                      None \<Rightarrow> (Inl RuntimeError, d)
                    | Some addr \<Rightarrow> (Inr addr, db_set_deposit_address tg_id addr d))
      in case db_get_user d tg_id of
           None \<Rightarrow> create
         | Some u \<Rightarrow>
             (case deposit_address u of
                None \<Rightarrow> create
              | Some a \<Rightarrow> if a \<noteq> [] then (Inr a, d) else create))"

section \<open>Handlers\<close>

datatype chat_type = PRIVATE | GROUP | SUPERGROUP | CHANNEL

record message =
  chat :: chat_type
  from_id :: int
  from_username :: "string option"
  from_is_bot :: bool

text \<open>\<^verbatim>\<open>m.from_user.username or ""\<close>\<close>

definition uname_of :: "message \<Rightarrow> string" where
  "uname_of m = (case from_username m of None \<Rightarrow> [] | Some s \<Rightarrow> s)"

datatype reply =
    NoReply
  | HelpWithAddress string
  | YourDepositAddress string
  | YourBalance decimal
  | WithdrawUsage
  | InvalidAmount
  | InsufficientBalance
  | AmountMustExceedFee
  | RpcError
  | WithdrawalSubmitted string decimal
  | UseTipInGroup
  | TipUsage
  | InvalidArguments
  | PleaseStartFirst
  | AmountMustBePositive
  | TargetNotFound
  | NoActiveUsersFound
  | NoActiveUsersToTip
  | InsufficientForSplit
  | TippedActive nat decimal
  | Tipped decimal
  | FaucetAvailableIn int
  | FaucetReceived decimal
  | Raised py_error

text \<open>
  Every handler takes the clock reading \<open>now\<close> of its call (all reads of \<^verbatim>\<open>now()\<close>
  during one call return that second) and the database, and returns its reply and the
  database it leaves. A reply names the message and carries the amounts the handler hands
  to \<^verbatim>\<open>fmt_amt\<close>; the text that \<^verbatim>\<open>fmt_amt\<close> makes of them is not modelled. For an amount
  below \<open>10^10\<close> \<^verbatim>\<open>fmt_amt\<close> returns; from \<open>10^10\<close> on its \<^verbatim>\<open>quantize\<close> raises when the text
  of the Decimal has a decimal point, which depends on the exponent of the Decimal and not
  on its value alone. Every handler prints its reply after its last write, so the database
  it leaves is the same in both cases.
\<close>

definition cmd_start :: "int \<Rightarrow> message \<Rightarrow> string option \<Rightarrow> db \<Rightarrow> reply \<times> db" where
  "cmd_start now m new_addr d =
     (if chat m \<noteq> PRIVATE then (NoReply, d)
      else case get_or_create_deposit_address new_addr (from_id m)
                  (db_upsert_user now (from_id m) (uname_of m) d) of
             (Inl e, d') \<Rightarrow> (Raised e, d')
           | (Inr addr, d') \<Rightarrow> (HelpWithAddress addr, d'))"

definition cmd_deposit :: "int \<Rightarrow> message \<Rightarrow> string option \<Rightarrow> db \<Rightarrow> reply \<times> db" where
  "cmd_deposit now m new_addr d =
     (if chat m \<noteq> PRIVATE then (NoReply, d)
      else case get_or_create_deposit_address new_addr (from_id m)
                  (db_upsert_user now (from_id m) (uname_of m) d) of
             (Inl e, d') \<Rightarrow> (Raised e, d')
           | (Inr addr, d') \<Rightarrow> (YourDepositAddress addr, d'))"

definition cmd_balance :: "int \<Rightarrow> message \<Rightarrow> db \<Rightarrow> reply \<times> db" where
  "cmd_balance now m d =
     (if chat m \<noteq> PRIVATE then (NoReply, d)
      else let d1 = db_upsert_user now (from_id m) (uname_of m) d
           in case db_get_user d1 (from_id m) of
                None \<Rightarrow> (Raised TypeError, d1)
              | Some u \<Rightarrow> (YourBalance (balance u), d1))"

text \<open>
  \<^verbatim>\<open>cmd_withdraw\<close>. \<open>args\<close> is \<open>None\<close> when the command does not have two arguments;
  the amount is \<open>None\<close> when \<^verbatim>\<open>Decimal(args[0])\<close> raises. \<open>send address x\<close> is the node's
  answer to \<^verbatim>\<open>sendtoaddress\<close> for the binary float \<open>x = float(send_amount)\<close>, \<open>None\<close>
  when the call raises.
\<close>

definition cmd_withdraw ::
  "config \<Rightarrow> int \<Rightarrow> message \<Rightarrow> (decimal option \<times> string) option \<Rightarrow>
   (string \<Rightarrow> pyfloat \<Rightarrow> string option) \<Rightarrow> db \<Rightarrow> reply \<times> db" where
  "cmd_withdraw cfg now m args send d =
     (if chat m \<noteq> PRIVATE then (NoReply, d)
      else let d1 = db_upsert_user now (from_id m) (uname_of m) d
           in case args of
                None \<Rightarrow> (WithdrawUsage, d1)
              | Some (None, address) \<Rightarrow> (InvalidAmount, d1)
              | Some (Some amt, address) \<Rightarrow>
                  if amt \<le> 0 then (InvalidAmount, d1)
                  else (case db_get_user d1 (from_id m) of
                          None \<Rightarrow> (Raised TypeError, d1)
                        | Some u \<Rightarrow>
                            let total_cost = amt
                            in if balance u < total_cost then (InsufficientBalance, d1)
                               else let send_amount = dec_sub amt (WITHDRAW_FEE cfg)
                                    in if send_amount \<le> 0 then (AmountMustExceedFee, d1)
                                       else (case send address (float_of send_amount) of
                                               None \<Rightarrow> (RpcError, d1)
                                             | Some tx \<Rightarrow>
                                                 let new_bal = dec_sub (balance u) total_cost
                                                 in (WithdrawalSubmitted tx new_bal,
                                                     db_add_transfer now Withdraw (Some (from_id m))
                                                       None amt (Some tx)
                                                       (db_update_balance (from_id m) new_bal d1)))))"

definition mark_active :: "int \<Rightarrow> message \<Rightarrow> db \<Rightarrow> db" where
  "mark_active now m d =
     (if chat m \<noteq> GROUP \<and> chat m \<noteq> SUPERGROUP then d
      else if from_is_bot m then d
      else db_set_active now (from_id m) (db_upsert_user now (from_id m) (uname_of m) d))"

text \<open>
  The result of \<^verbatim>\<open>parse_tip_args\<close>: the mode with the user name of a direct tip, and the
  amount. \<open>NoArgs\<close> is an empty \<^verbatim>\<open>command.args\<close>, \<open>Unparsed\<close> the result \<^verbatim>\<open>None\<close>.
\<close>

datatype tip_mode = Lucky | Active | Direct string

datatype tip_input = NoArgs | Unparsed | Parsed tip_mode decimal

text \<open>\<^verbatim>\<open>str.lower\<close> on the ASCII letters.\<close>

definition lower_char :: "char \<Rightarrow> char" where
  "lower_char c = (let n = (of_char c :: int) in if 65 \<le> n \<and> n \<le> 90 then char_of (n + 32) else c)"

definition lower :: "string \<Rightarrow> string" where
  "lower s = map lower_char s"

text \<open>The loop over \<^verbatim>\<open>SELECT tg_id, username FROM users\<close> with its \<^verbatim>\<open>break\<close>.\<close>

fun find_username :: "string \<Rightarrow> (int \<times> user) list \<Rightarrow> int option" where
  "find_username uname [] = None"
| "find_username uname ((uid, u) # rows) =
     (if username u \<noteq> [] \<and> lower (username u) = uname then Some uid
      else find_username uname rows)"

text \<open>\<^verbatim>\<open>SELECT tg_id FROM users WHERE last_active_ts>=?\<close> with the cutoff \<^verbatim>\<open>now() - ACTIVE_WINDOW\<close>.\<close>

definition active_ids :: "config \<Rightarrow> int \<Rightarrow> db \<Rightarrow> int list" where
  "active_ids cfg now d =
     map fst (filter (\<lambda>(k, u). now - ACTIVE_WINDOW cfg \<le> last_active_ts u) (users d))"

text \<open>
  The loop of the split tip. A recipient that is not in the table makes \<^verbatim>\<open>u["balance"]\<close>
  raise: \<open>Inl\<close> carries the database at that moment.
\<close>

fun tip_each :: "int \<Rightarrow> int \<Rightarrow> decimal \<Rightarrow> int list \<Rightarrow> db \<Rightarrow> db + db" where
  "tip_each now sender_id share [] d = Inr d"
| "tip_each now sender_id share (uid # uids) d =
     (case db_get_user d uid of
        None \<Rightarrow> Inl d
      | Some u \<Rightarrow>
          tip_each now sender_id share uids
            (db_add_transfer now Tip (Some sender_id) (Some uid) share None
               (db_update_balance uid (dec_add (balance u) share) d)))"

definition tip_split :: "int \<Rightarrow> int \<Rightarrow> user \<Rightarrow> decimal \<Rightarrow> int list \<Rightarrow> db \<Rightarrow> reply \<times> db" where
  "tip_split now sender_id sender amt recipients d =
     (case quantize8 (dec_div amt (of_nat (length recipients))) of
        Inl e \<Rightarrow> (Raised e, d)
      | Inr share \<Rightarrow>
          let tot = dec_mul share (of_nat (length recipients))
          in if balance sender < tot then (InsufficientForSplit, d)
             else (case tip_each now sender_id share recipients
                          (db_update_balance sender_id (dec_sub (balance sender) tot) d) of
                     Inl d' \<Rightarrow> (Raised TypeError, d')
                   | Inr d' \<Rightarrow> (TippedActive (length recipients) share,
                                db_set_active now sender_id d')))"

definition tip_single :: "int \<Rightarrow> int \<Rightarrow> user \<Rightarrow> decimal \<Rightarrow> int \<Rightarrow> db \<Rightarrow> reply \<times> db" where
  "tip_single now sender_id sender amt uid d =
     (let d1 = db_update_balance sender_id (dec_sub (balance sender) amt) d
      in case db_get_user d1 uid of
           None \<Rightarrow> (Raised TypeError, d1)
         | Some u \<Rightarrow>
             (Tipped amt,
              db_set_active now sender_id
                (db_add_transfer now Tip (Some sender_id) (Some uid) amt None
                   (db_update_balance uid (dec_add (balance u) amt) d1))))"

text \<open>
  \<^verbatim>\<open>cmd_tip\<close>. \<open>rnd\<close> is the draw of \<^verbatim>\<open>random.choice\<close>: the candidate at index
  \<open>rnd mod length candidates\<close>.
\<close>

definition cmd_tip :: "config \<Rightarrow> int \<Rightarrow> message \<Rightarrow> tip_input \<Rightarrow> nat \<Rightarrow> db \<Rightarrow> reply \<times> db" where
  "cmd_tip cfg now m args rnd d =
     (if chat m \<noteq> GROUP \<and> chat m \<noteq> SUPERGROUP then (UseTipInGroup, d)
      else case args of
             NoArgs \<Rightarrow> (TipUsage, d)
           | Unparsed \<Rightarrow> (InvalidArguments, d)
           | Parsed mode amt \<Rightarrow>
               (case db_get_user d (from_id m) of
                  None \<Rightarrow> (PleaseStartFirst, d)
                | Some sender \<Rightarrow>
                    if amt \<le> 0 then (AmountMustBePositive, d)
                    else if balance sender < amt then (InsufficientBalance, d)
                    else (case mode of
                            Direct uname \<Rightarrow>
                              (case find_username (lower uname) (users d) of
                                 None \<Rightarrow> (TargetNotFound, d)
                               | Some uid \<Rightarrow> tip_single now (from_id m) sender amt uid d)
                          | Active \<Rightarrow>
                              (let recipients = filter (\<lambda>uid. uid \<noteq> from_id m) (active_ids cfg now d)
                               in if recipients = [] then (NoActiveUsersFound, d)
                                  else tip_split now (from_id m) sender amt recipients d)
                          | Lucky \<Rightarrow>
                              (let candidates = filter (\<lambda>uid. uid \<noteq> from_id m) (active_ids cfg now d)
                               in if candidates = [] then (NoActiveUsersToTip, d)
                                  else tip_single now (from_id m) sender amt
                                         (candidates ! (rnd mod length candidates)) d))))"

definition cmd_faucet :: "config \<Rightarrow> int \<Rightarrow> message \<Rightarrow> db \<Rightarrow> reply \<times> db" where
  "cmd_faucet cfg now m d =
     (let d1 = db_upsert_user now (from_id m) (uname_of m) d
      in case db_get_user d1 (from_id m) of
           None \<Rightarrow> (Raised TypeError, d1)
         | Some u \<Rightarrow>
             if now - last_faucet_ts u < FAUCET_INTERVAL cfg
             then (FaucetAvailableIn ((FAUCET_INTERVAL cfg - (now - last_faucet_ts u)) div 60), d1)
             else let new_bal = dec_add (balance u) (FAUCET_AMOUNT cfg)
                  in (FaucetReceived new_bal,
                      db_add_transfer now Faucet None (Some (from_id m)) (FAUCET_AMOUNT cfg) None
                        (db_set_last_faucet (from_id m) now
                           (db_update_balance (from_id m) new_bal d1))))"

section \<open>The deposit scanner\<close>

text \<open>
  One pass of \<^verbatim>\<open>scanner_loop\<close>. \<open>received addr\<close> is the node's answer to
  \<^verbatim>\<open>getreceivedbyaddress\<close> for this address, \<open>None\<close> when the call raises. The rows are
  read once, before the loop (\<^verbatim>\<open>cur.fetchall()\<close>); the loop then works from that
  snapshot. \<open>credit_row\<close> is the body of the loop for one row: it adds the difference to
  the balance of the snapshot, not to the stored one.
\<close>

type_synonym scan_row = "int \<times> string \<times> decimal \<times> decimal"

definition scan_rows :: "db \<Rightarrow> scan_row list" where
  "scan_rows d =
     concat (map (\<lambda>(k, u). case deposit_address u of
                              None \<Rightarrow> []
                            | Some a \<Rightarrow> [(k, a, credited_total u, balance u)]) (users d))"

definition credit_row :: "int \<Rightarrow> (string \<Rightarrow> decimal option) \<Rightarrow> scan_row \<Rightarrow> db \<Rightarrow> db" where
  "credit_row now received row d =
     (case row of (tg_id, addr, credited, bal) \<Rightarrow>
        (case received addr of
           None \<Rightarrow> d
         | Some total_recv \<Rightarrow>
             if credited < total_recv
             then let diff = dec_sub total_recv credited;
                      new_bal = dec_add bal diff
                  in db_add_transfer now Deposit None (Some tg_id) diff None
                       (db_set_credited_total tg_id total_recv
                          (db_update_balance tg_id new_bal d))
             else d))"

fun scan_loop :: "int \<Rightarrow> (string \<Rightarrow> decimal option) \<Rightarrow> scan_row list \<Rightarrow> db \<Rightarrow> db" where
  "scan_loop now received [] d = d"
| "scan_loop now received (row # rows) d = scan_loop now received rows (credit_row now received row d)"

text \<open>A pass during which no handler runs.\<close>

definition scanner_pass :: "int \<Rightarrow> (string \<Rightarrow> decimal option) \<Rightarrow> db \<Rightarrow> db" where
  "scanner_pass now received d = scan_loop now received (scan_rows d) d"

text \<open>
  After a credit the loop awaits \<^verbatim>\<open>bot.send_message\<close>, and the handlers of the messages
  that have arrived run there, before the loop goes on with the next row of its snapshot.
  It is the only await of a pass (the calls of the node are synchronous). \<open>scan_segment\<close>
  is the loop from one await to the next: it works through the rows that are left, up to
  and including the first one that is credited, and returns the rows still to do.
\<close>

definition credits :: "(string \<Rightarrow> decimal option) \<Rightarrow> scan_row \<Rightarrow> bool" where
  "credits received row =
     (case row of (tg_id, addr, credited, bal) \<Rightarrow>
        (case received addr of None \<Rightarrow> False | Some total_recv \<Rightarrow> credited < total_recv))"

fun scan_segment ::
  "int \<Rightarrow> (string \<Rightarrow> decimal option) \<Rightarrow> scan_row list \<Rightarrow> db \<Rightarrow> scan_row list \<times> db" where
  "scan_segment now received [] d = ([], d)"
| "scan_segment now received (row # rows) d =
     (if credits received row then (rows, credit_row now received row d)
      else scan_segment now received rows (credit_row now received row d))"

section \<open>Runs of the bot\<close>

text \<open>
  The bot is one event loop: the handlers and the scanner task take turns at their awaits.
  Every handler awaits only its reply, after its last write, so a call of a handler is one
  event. The scanner awaits after every credit and between two passes, so its event
  \<open>EvScan\<close> is the scanner from one await to the next: when no rows of a pass are left it
  reads the rows, and it works through the rows up to and including the next credit. An
  event carries the clock reading and the answers of the wallet node. The state is the
  database with the rows the scanner has read and not yet worked through; a run applies a
  list of events to the empty database, one after the other.
\<close>

datatype event =
    EvStart int message "string option"
  | EvDeposit int message "string option"
  | EvBalance int message
  | EvWithdraw int message "(decimal option \<times> string) option" "string \<Rightarrow> pyfloat \<Rightarrow> string option"
  | EvMessage int message
  | EvTip int message tip_input nat
  | EvFaucet int message
  | EvScan int "string \<Rightarrow> decimal option"

record bot_state =
  store :: db
  rows_left :: "scan_row list"

fun step :: "config \<Rightarrow> bot_state \<Rightarrow> event \<Rightarrow> bot_state" where
  "step cfg s (EvStart now m a) = s\<lparr>store := snd (cmd_start now m a (store s))\<rparr>"
| "step cfg s (EvDeposit now m a) = s\<lparr>store := snd (cmd_deposit now m a (store s))\<rparr>"
| "step cfg s (EvBalance now m) = s\<lparr>store := snd (cmd_balance now m (store s))\<rparr>"
| "step cfg s (EvWithdraw now m args send) =
     s\<lparr>store := snd (cmd_withdraw cfg now m args send (store s))\<rparr>"
| "step cfg s (EvMessage now m) = s\<lparr>store := mark_active now m (store s)\<rparr>"
| "step cfg s (EvTip now m args rnd) = s\<lparr>store := snd (cmd_tip cfg now m args rnd (store s))\<rparr>"
| "step cfg s (EvFaucet now m) = s\<lparr>store := snd (cmd_faucet cfg now m (store s))\<rparr>"
| "step cfg s (EvScan now received) =
     (let rows = (if rows_left s = [] then scan_rows (store s) else rows_left s)
      in case scan_segment now received rows (store s) of
           (rest, d') \<Rightarrow> \<lparr>store = d', rows_left = rest\<rparr>)"

definition init_state :: bot_state where
  "init_state = \<lparr>store = empty_db, rows_left = []\<rparr>"

definition run_state :: "config \<Rightarrow> event list \<Rightarrow> bot_state" where
  "run_state cfg evs = foldl (step cfg) init_state evs"

definition run :: "config \<Rightarrow> event list \<Rightarrow> db" where
  "run cfg evs = store (run_state cfg evs)"

text \<open>The quantities of the ledger.\<close>

definition sum_balances :: "db \<Rightarrow> decimal" where
  "sum_balances d = sum_list (map (\<lambda>(k, u). balance u) (users d))"

definition recorded :: "kind \<Rightarrow> db \<Rightarrow> decimal" where
  "recorded k d = sum_list (map amount (filter (\<lambda>t. kind t = k) (transfers d)))"

definition fees_charged :: "config \<Rightarrow> db \<Rightarrow> decimal" where
  "fees_charged cfg d =
     WITHDRAW_FEE cfg * of_nat (length (filter (\<lambda>t. kind t = Withdraw) (transfers d)))"

section \<open>Example states\<close>

text \<open>A database with the single account 1, created at time 0.\<close>

definition alice_db :: db where
  "alice_db = db_upsert_user 0 1 ''alice'' empty_db"

text \<open>The default configuration of the source: faucet 50 every 7200 seconds, fee 1.\<close>

definition cfg0 :: config where
  "cfg0 = \<lparr>FAUCET_AMOUNT = 50, FAUCET_INTERVAL = 7200, WITHDRAW_FEE = 1, ACTIVE_WINDOW = 1800\<rparr>"

definition private_msg :: "int \<Rightarrow> string \<Rightarrow> message" where
  "private_msg k n = \<lparr>chat = PRIVATE, from_id = k, from_username = Some n, from_is_bot = False\<rparr>"

definition group_msg :: "int \<Rightarrow> string \<Rightarrow> message" where
  "group_msg k n = \<lparr>chat = GROUP, from_id = k, from_username = Some n, from_is_bot = False\<rparr>"

text \<open>Account 1 after one faucet claim at time 10000: balance 50.\<close>

definition funded_db :: db where
  "funded_db = snd (cmd_faucet cfg0 10000 (private_msg 1 ''alice'') empty_db)"

text \<open>
  A run in which account 1 claims the faucet and then tips \<open>10^-19\<close> to account 2
  (\<^verbatim>\<open>/tip @BOB 0.0000000000000000001\<close>); account 2 has a deposit address.
\<close>

definition dust_db :: db where
  "dust_db = run cfg0
     [EvFaucet 10000 (private_msg 1 ''alice''),
      EvStart 10000 (private_msg 2 ''bob'') (Some ''PbobAddress''),
      EvMessage 10000 (group_msg 2 ''Bob''),
      EvTip 10001 (group_msg 1 ''alice'') (Parsed (Direct ''BOB'') (1 / 10 ^ 19)) 0]"

text \<open>Account 1 after \<^verbatim>\<open>/start\<close>: a deposit address and nothing else.\<close>

definition addr_db :: db where
  "addr_db = snd (cmd_start 0 (private_msg 1 ''alice'') (Some ''PaliceAddress'') empty_db)"

text \<open>Every stored balance is at least 0.\<close>

definition nonneg :: "db \<Rightarrow> bool" where
  "nonneg d \<longleftrightarrow> (\<forall>(k, u) \<in> set (users d). 0 \<le> balance u)"

text \<open>A faucet claim of 50, a withdrawal of 60 (refused) and a withdrawal of 50.\<close>

definition spend_events :: "event list" where
  "spend_events =
     [EvFaucet 10000 (private_msg 1 ''alice''),
      EvWithdraw 10001 (private_msg 1 ''alice'') (Some (Some 60, ''addr'')) (\<lambda>a x. Some ''tx1''),
      EvWithdraw 10002 (private_msg 1 ''alice'') (Some (Some 50, ''addr'')) (\<lambda>a x. Some ''tx2'')]"

text \<open>Account 1 with balance 50 and three other accounts, all active at time 10000.\<close>

definition crowd_db :: db where
  "crowd_db = run cfg0
     [EvFaucet 10000 (private_msg 1 ''alice''),
      EvMessage 10000 (group_msg 2 ''bob''),
      EvMessage 10000 (group_msg 3 ''carol''),
      EvMessage 10000 (group_msg 4 ''dave'')]"

section \<open>Conservation: the quantities and the invariant\<close>

text \<open>
  The amount issued so far: the recorded deposits and faucet claims.
\<close>

definition issued :: "db \<Rightarrow> decimal" where
  "issued d = recorded Deposit d + recorded Faucet d"

text \<open>
  The amounts an event brings in (the amount typed after \<^verbatim>\<open>/withdraw\<close> or \<^verbatim>\<open>/tip\<close>, the totals
  the wallet node reports) are multiples of \<open>10^-8\<close> below \<open>10^10\<close>.
\<close>

definition grid_event :: "event \<Rightarrow> bool" where
  "grid_event e =
     (case e of
        EvWithdraw now m args send \<Rightarrow>
          (case args of Some (Some amt, address) \<Rightarrow> on_grid amt | _ \<Rightarrow> True)
      | EvTip now m args rnd \<Rightarrow> (case args of Parsed mode amt \<Rightarrow> on_grid amt | _ \<Rightarrow> True)
      | EvScan now received \<Rightarrow> (\<forall>a t. received a = Some t \<longrightarrow> on_grid t)
      | _ \<Rightarrow> True)"

text \<open>
  The invariant of the ledger: the keys of the users table are distinct, every balance is
  non-negative, balances and credited totals are multiples of \<open>10^-8\<close>, and the balances add
  up to what was issued minus what was withdrawn.
\<close>

definition wf_rows :: "db \<Rightarrow> bool" where
  "wf_rows d \<longleftrightarrow>
     distinct (map fst (users d)) \<and>
     (\<forall>(k, u) \<in> set (users d). 0 \<le> balance u \<and> on_grid (balance u) \<and> on_grid (credited_total u))"

definition ledger_inv :: "db \<Rightarrow> bool" where
  "ledger_inv d \<longleftrightarrow>
     wf_rows d \<and> 0 \<le> recorded Withdraw d \<and> sum_balances d = issued d - recorded Withdraw d"

text \<open>
  The row a scanner event credits, and the events that find their row as the scanner read
  it: the balance the table holds for the account is still the balance of the snapshot.
\<close>

fun first_credit :: "(string \<Rightarrow> decimal option) \<Rightarrow> scan_row list \<Rightarrow> scan_row option" where
  "first_credit received [] = None"
| "first_credit received (row # rows) =
     (if credits received row then Some row else first_credit received rows)"

definition fresh_event :: "bot_state \<Rightarrow> event \<Rightarrow> bool" where
  "fresh_event s e =
     (case e of
        EvScan now received \<Rightarrow>
          (case first_credit received
                  (if rows_left s = [] then scan_rows (store s) else rows_left s) of
             None \<Rightarrow> True
           | Some (tg_id, addr, credited, bal) \<Rightarrow>
               (case db_get_user (store s) tg_id of
                  None \<Rightarrow> False
                | Some u \<Rightarrow> balance u = bal))
      | _ \<Rightarrow> True)"

fun fresh_run :: "config \<Rightarrow> bot_state \<Rightarrow> event list \<Rightarrow> bool" where
  "fresh_run cfg s [] = True"
| "fresh_run cfg s (e # es) = (fresh_event s e \<and> fresh_run cfg (step cfg s e) es)"

text \<open>
  A run in which account 1 deposits 50 and withdraws 5 with the fee of 1.
\<close>

definition fee_events :: "event list" where
  "fee_events =
     [EvStart 0 (private_msg 1 ''alice'') (Some ''PaliceAddress''),
      EvScan 100 (\<lambda>a. if a = ''PaliceAddress'' then Some 50 else None),
      EvWithdraw 200 (private_msg 1 ''alice'') (Some (Some 5, ''addr'')) (\<lambda>a x. Some ''tx'')]"

text \<open>
  A run in which a handler runs during a pass of the scanner. Account 2 holds a deposit
  of 100. A pass reads the rows of accounts 1 and 2, credits 50 to account 1 and awaits;
  account 2 withdraws its 100; the pass goes on with the row it read for account 2 and
  credits a further deposit of 10.
\<close>

definition stale_events :: "event list" where
  "stale_events =
     [EvStart 0 (private_msg 1 ''alice'') (Some ''PaliceAddress''),
      EvStart 0 (private_msg 2 ''bob'') (Some ''PbobAddress''),
      EvScan 100 (\<lambda>a. if a = ''PbobAddress'' then Some 100 else None),
      EvScan 200 (\<lambda>a. if a = ''PaliceAddress'' then Some 50
                       else if a = ''PbobAddress'' then Some 110 else None),
      EvWithdraw 201 (private_msg 2 ''bob'') (Some (Some 100, ''addr'')) (\<lambda>a x. Some ''tx''),
      EvScan 202 (\<lambda>a. if a = ''PaliceAddress'' then Some 50
                       else if a = ''PbobAddress'' then Some 110 else None)]"

section \<open>Facts about the decimal arithmetic\<close>

lemma floor_rat_numeral [simp]: "\<lfloor>(numeral a / numeral b :: rat)\<rfloor> = numeral a div numeral b"
  by (metis floor_divide_of_int_eq of_int_numeral)

lemma ceiling_rat_numeral [simp]:
  "\<lceil>(numeral a / numeral b :: rat)\<rceil> = - (- numeral a div numeral b)"
  by (metis ceiling_def floor_divide_of_int_eq minus_divide_left of_int_minus of_int_numeral)

lemma pow10_powi: "pow10 k = 10 powi k"
  by (simp add: pow10_def power_int_def field_simps)

lemma pow10_pos [simp]: "0 < pow10 k"
  by (simp add: pow10_powi)

lemma pow10_add: "pow10 (a + b) = pow10 a * pow10 b"
  by (simp add: pow10_powi power_int_add)

lemma pow10_nat: "pow10 (int n) = 10 ^ n"
  by (simp add: pow10_powi)

lemma pow10_neg_nat: "pow10 (- int n) = 1 / 10 ^ n"
  by (simp add: pow10_powi power_int_minus field_simps)

lemma pow10_mono: "a \<le> b \<Longrightarrow> pow10 a \<le> pow10 b"
  by (simp add: pow10_powi power_int_increasing)

lemma pow10_less_cancel: "pow10 a < pow10 b \<Longrightarrow> a < b"
  using pow10_mono [of b a] by (cases "a < b") auto

lemma ndigits_bounds: "1 \<le> n \<Longrightarrow> 10 ^ (ndigits n - 1) \<le> n \<and> n < 10 ^ ndigits n"
proof (induction n rule: ndigits.induct)
  case (1 n)
  show ?case
  proof (cases "n < 10")
    case True
    with "1.prems" show ?thesis by (simp add: ndigits.simps [of n])
  next
    case False
    then have "1 \<le> n div 10" by simp
    with "1.IH" False have ih: "10 ^ (ndigits (n div 10) - 1) \<le> n div 10"
      "n div 10 < 10 ^ ndigits (n div 10)" by simp_all
    have pos: "0 < ndigits (n div 10)" by (simp add: ndigits.simps [of "n div 10"])
    have eq: "ndigits n = Suc (ndigits (n div 10))" using False by (simp add: ndigits.simps [of n])
    have "10 * 10 ^ (ndigits (n div 10) - 1) \<le> n" using ih(1) by linarith
    moreover have "(10::int) * 10 ^ (ndigits (n div 10) - 1) = 10 ^ ndigits (n div 10)"
      using pos by (cases "ndigits (n div 10)") simp_all
    moreover have "n < 10 * 10 ^ ndigits (n div 10)" using ih(2) by linarith
    ultimately show ?thesis by (simp add: eq)
  qed
qed

lemma ndigits_pos: "0 < ndigits n"
  by (simp add: ndigits.simps [of n])

lemma adjusted_bounds:
  assumes "0 < x"
  shows "pow10 (adjusted x) \<le> x" and "x < pow10 (adjusted x + 1)"
proof -
  show "pow10 (adjusted x) \<le> x"
  proof (cases "1 \<le> x")
    case True
    then have n1: "1 \<le> \<lfloor>x\<rfloor>" by simp
    from ndigits_bounds [OF n1] have "(10::int) ^ (ndigits \<lfloor>x\<rfloor> - 1) \<le> \<lfloor>x\<rfloor>" by simp
    then have "of_int ((10::int) ^ (ndigits \<lfloor>x\<rfloor> - 1)) \<le> x" by (simp only: le_floor_iff)
    moreover have "adjusted x = int (ndigits \<lfloor>x\<rfloor> - 1)"
      using True ndigits_pos [of "\<lfloor>x\<rfloor>"] by (simp add: adjusted_def)
    ultimately show ?thesis by (simp add: pow10_nat)
  next
    case False
    with assms have x1: "x < 1" by simp
    define c where "c = \<lceil>1 / x\<rceil>"
    have "1 < 1 / x" using assms x1 by simp
    then have c2: "1 \<le> c - 1" unfolding c_def by (simp add: less_ceiling_iff)
    from ndigits_bounds [OF c2] have "c - 1 < 10 ^ ndigits (c - 1)" by simp
    then have "c \<le> 10 ^ ndigits (c - 1)" by simp
    then have "1 / x \<le> of_int (10 ^ ndigits (c - 1))" unfolding c_def by (simp only: ceiling_le_iff)
    then have "1 / x \<le> 10 ^ ndigits (c - 1)" by simp
    then have "1 \<le> 10 ^ ndigits (c - 1) * x" using assms by (simp add: field_simps)
    then have "1 / 10 ^ ndigits (c - 1) \<le> x" by (simp add: field_simps)
    moreover have "adjusted x = - int (ndigits (c - 1))" using False by (simp add: adjusted_def c_def)
    ultimately show ?thesis by (simp only: pow10_neg_nat)
  qed
  show "x < pow10 (adjusted x + 1)"
  proof (cases "1 \<le> x")
    case True
    then have n1: "1 \<le> \<lfloor>x\<rfloor>" by simp
    from ndigits_bounds [OF n1] have "\<lfloor>x\<rfloor> < 10 ^ ndigits \<lfloor>x\<rfloor>" by simp
    then have "x < of_int (10 ^ ndigits \<lfloor>x\<rfloor>)" by (simp only: floor_less_iff)
    moreover have "adjusted x + 1 = int (ndigits \<lfloor>x\<rfloor>)"
      using True by (simp add: adjusted_def)
    ultimately show ?thesis by (simp add: pow10_nat)
  next
    case False
    with assms have x1: "x < 1" by simp
    define c where "c = \<lceil>1 / x\<rceil>"
    have "1 < 1 / x" using assms x1 by simp
    then have c2: "1 \<le> c - 1" unfolding c_def by (simp add: less_ceiling_iff)
    from ndigits_bounds [OF c2] have "10 ^ (ndigits (c - 1) - 1) \<le> c - 1" by simp
    then have "10 ^ (ndigits (c - 1) - 1) < c" by simp
    then have "of_int (10 ^ (ndigits (c - 1) - 1)) < 1 / x" unfolding c_def by (simp only: less_ceiling_iff)
    then have "10 ^ (ndigits (c - 1) - 1) < 1 / x" by simp
    then have "10 ^ (ndigits (c - 1) - 1) * x < 1" using assms by (simp add: field_simps)
    then have lt: "x < 1 / 10 ^ (ndigits (c - 1) - 1)" by (simp add: field_simps)
    have adj: "adjusted x + 1 = - int (ndigits (c - 1) - 1)"
      using False ndigits_pos [of "c - 1"] by (simp add: adjusted_def c_def)
    show ?thesis using lt by (simp only: adj pow10_neg_nat)
  qed
qed


lemma round_half_even_of_int [simp]: "round_half_even (of_int k) = k"
  by (simp add: round_half_even_def)

lemma round_half_even_ge: "of_int k \<le> y \<Longrightarrow> k \<le> round_half_even y"
proof -
  assume "of_int k \<le> y"
  then have "k \<le> \<lfloor>y\<rfloor>" by (simp add: le_floor_iff)
  then show ?thesis by (simp add: round_half_even_def Let_def)
qed

lemma ctx_round_0 [simp]: "ctx_round 0 = 0"
  by (simp add: ctx_round_def)

lemma ctx_round_minus: "ctx_round (- x) = - ctx_round x"
  by (simp add: ctx_round_def Let_def)

lemma ctx_round_ge_pow10:
  assumes "0 < x"
  shows "pow10 (adjusted x) \<le> ctx_round x"
proof -
  define q where "q = pow10 (adjusted x - 17)"
  have qpos: "0 < q" by (simp add: q_def)
  have "pow10 (adjusted x) = pow10 17 * q"
    using pow10_add [of 17 "adjusted x - 17"] by (simp add: q_def)
  then have split: "pow10 (adjusted x) = 10 ^ 17 * q" by (simp add: pow10_def)
  with adjusted_bounds(1) [OF assms] have "10 ^ 17 * q \<le> x" by simp
  then have "10 ^ 17 \<le> x / q" using qpos by (simp add: field_simps)
  then have "of_int (10 ^ 17) \<le> x / q" by simp
  then have "10 ^ 17 \<le> round_half_even (x / q)" by (rule round_half_even_ge)
  then have "(10 ^ 17 :: rat) \<le> of_int (round_half_even (x / q))"
    by (metis of_int_le_iff of_int_numeral of_int_power)
  then have "10 ^ 17 * q \<le> of_int (round_half_even (x / q)) * q"
    using qpos by simp
  moreover have "ctx_round x = of_int (round_half_even (x / q)) * q"
    using assms by (simp add: ctx_round_def q_def Let_def)
  ultimately show ?thesis using split by simp
qed

lemma ctx_round_pos: "0 < x \<Longrightarrow> 0 < ctx_round x"
  using ctx_round_ge_pow10 [of x] pow10_pos [of "adjusted x"] by linarith

lemma ctx_round_nonneg: "0 \<le> x \<Longrightarrow> 0 \<le> ctx_round x"
  using ctx_round_pos [of x] by (cases "x = 0") auto

lemma ctx_round_le_0_iff: "ctx_round x \<le> 0 \<longleftrightarrow> x \<le> 0"
proof
  assume "ctx_round x \<le> 0"
  then show "x \<le> 0" using ctx_round_pos [of x] by (cases "0 < x") auto
next
  assume "x \<le> 0"
  then have "0 \<le> ctx_round (- x)" by (simp add: ctx_round_nonneg)
  then show "ctx_round x \<le> 0" by (simp add: ctx_round_minus)
qed

lemma ctx_round_ge_big:
  assumes "10 ^ 10 \<le> x"
  shows "10 ^ 10 \<le> ctx_round x"
proof -
  have pos: "0 < x" using assms by (rule less_le_trans [rotated]) simp
  have "pow10 10 \<le> x" using assms by (simp add: pow10_def)
  with adjusted_bounds(2) [OF pos] have "pow10 10 < pow10 (adjusted x + 1)" by simp
  then have "10 < adjusted x + 1" by (rule pow10_less_cancel)
  then have "pow10 10 \<le> pow10 (adjusted x)" by (intro pow10_mono) simp
  with ctx_round_ge_pow10 [OF pos] have "pow10 10 \<le> ctx_round x" by simp
  then show ?thesis by (simp add: pow10_def)
qed

lemma on_gridE: "on_grid x \<Longrightarrow> (\<And>k. x = of_int k / 10 ^ 8 \<Longrightarrow> P) \<Longrightarrow> P"
  unfolding on_grid_def by (metis nonzero_eq_divide_eq power_eq_0_iff zero_neq_numeral)

lemma on_grid_of_int: "on_grid (of_int k / 10 ^ 8)"
  by (simp add: on_grid_def)

lemma on_grid_0 [simp]: "on_grid 0"
  by (simp add: on_grid_def)

lemma on_grid_add: "on_grid x \<Longrightarrow> on_grid y \<Longrightarrow> on_grid (x + y)"
proof -
  assume "on_grid x" "on_grid y"
  then obtain a b where "x = of_int a / 10 ^ 8" "y = of_int b / 10 ^ 8"
    by (elim on_gridE)
  then have "x + y = of_int (a + b) / 10 ^ 8" by (simp add: add_divide_distrib)
  then show ?thesis by (simp only: on_grid_of_int)
qed

lemma on_grid_diff: "on_grid x \<Longrightarrow> on_grid y \<Longrightarrow> on_grid (x - y)"
proof -
  assume "on_grid x" "on_grid y"
  then obtain a b where "x = of_int a / 10 ^ 8" "y = of_int b / 10 ^ 8"
    by (elim on_gridE)
  then have "x - y = of_int (a - b) / 10 ^ 8" by (simp add: diff_divide_distrib)
  then show ?thesis by (simp only: on_grid_of_int)
qed

lemma on_grid_mult_nat: "on_grid x \<Longrightarrow> on_grid (x * of_nat n)"
proof -
  assume "on_grid x"
  then obtain a where "x = of_int a / 10 ^ 8" by (elim on_gridE)
  then have "x * of_nat n = of_int (a * int n) / 10 ^ 8" by simp
  then show ?thesis by (simp only: on_grid_of_int)
qed

lemma ctx_round_exact_pos:
  assumes g: "on_grid x" and pos: "0 < x" and lt: "x < 10 ^ 10"
  shows "ctx_round x = x"
proof -
  from g obtain k where k: "x = of_int k / 10 ^ 8" by (elim on_gridE)
  define e where "e = adjusted x"
  have "pow10 e \<le> x" unfolding e_def using pos by (rule adjusted_bounds(1))
  with lt have "pow10 e < pow10 10" by (simp add: pow10_def)
  then have e9: "e \<le> 9" using pow10_less_cancel [of e 10] by simp
  define j where "j = nat (9 - e)"
  have je: "int j = 9 - e" using e9 by (simp add: j_def)
  define q where "q = pow10 (e - 17)"
  have "pow10 (- 8) = pow10 (int j) * q"
    using pow10_add [of "int j" "e - 17"] by (simp add: je q_def)
  then have q8: "1 / 10 ^ 8 = 10 ^ j * q" by (simp add: pow10_nat) (simp add: pow10_def)
  have qpos: "0 < q" by (simp add: q_def)
  have "x = of_int k * (1 / 10 ^ 8)" using k by simp
  then have "x = of_int k * (10 ^ j * q)" by (simp only: q8)
  then have xq: "x = of_int (k * 10 ^ j) * q" by simp
  then have "x / q = of_int (k * 10 ^ j)" using qpos by simp
  then have "round_half_even (x / q) = k * 10 ^ j" by (simp only: round_half_even_of_int)
  moreover have "ctx_round x = of_int (round_half_even (x / q)) * q"
    using pos by (simp add: ctx_round_def q_def e_def Let_def)
  ultimately show ?thesis using xq by simp
qed

lemma ctx_round_exact:
  assumes "on_grid x" and "0 \<le> x" and "x < 10 ^ 10"
  shows "ctx_round x = x"
  using assms ctx_round_exact_pos [of x] by (cases "x = 0") auto

section \<open>Facts about the binary float\<close>

lemma pow2_powi: "pow2 k = 2 powi k"
  by (simp add: pow2_def power_int_def field_simps)

lemma pow2_pos [simp]: "0 < pow2 k"
  by (simp add: pow2_powi)

lemma pow2_nat: "pow2 (int n) = 2 ^ n"
  by (simp add: pow2_powi)

lemma pow2_neg_nat: "pow2 (- int n) = 1 / 2 ^ n"
  by (simp add: pow2_powi power_int_minus field_simps)

lemma pow2_mono: "a \<le> b \<Longrightarrow> pow2 a \<le> pow2 b"
  by (simp add: pow2_powi power_int_increasing)

lemma pow2_less_cancel: "pow2 a < pow2 b \<Longrightarrow> a < b"
  using pow2_mono [of b a] by (cases "a < b") auto

lemma nbits_bounds: "1 \<le> n \<Longrightarrow> 2 ^ (nbits n - 1) \<le> n \<and> n < 2 ^ nbits n"
proof (induction n rule: nbits.induct)
  case (1 n)
  show ?case
  proof (cases "n < 2")
    case True
    with "1.prems" show ?thesis by (simp add: nbits.simps [of n])
  next
    case False
    then have "1 \<le> n div 2" by simp
    with "1.IH" False have ih: "2 ^ (nbits (n div 2) - 1) \<le> n div 2"
      "n div 2 < 2 ^ nbits (n div 2)" by simp_all
    have pos: "0 < nbits (n div 2)" by (simp add: nbits.simps [of "n div 2"])
    have eq: "nbits n = Suc (nbits (n div 2))" using False by (simp add: nbits.simps [of n])
    have "2 * 2 ^ (nbits (n div 2) - 1) \<le> n" using ih(1) by linarith
    moreover have "(2::int) * 2 ^ (nbits (n div 2) - 1) = 2 ^ nbits (n div 2)"
      using pos by (cases "nbits (n div 2)") simp_all
    moreover have "n < 2 * 2 ^ nbits (n div 2)" using ih(2) by linarith
    ultimately show ?thesis by (simp add: eq)
  qed
qed

lemma nbits_pos: "0 < nbits n"
  by (simp add: nbits.simps [of n])

lemma bexp_bounds:
  assumes "0 < x"
  shows "pow2 (bexp x) \<le> x" and "x < pow2 (bexp x + 1)"
proof -
  show "pow2 (bexp x) \<le> x"
  proof (cases "1 \<le> x")
    case True
    then have n1: "1 \<le> \<lfloor>x\<rfloor>" by simp
    from nbits_bounds [OF n1] have "(2::int) ^ (nbits \<lfloor>x\<rfloor> - 1) \<le> \<lfloor>x\<rfloor>" by simp
    then have "of_int ((2::int) ^ (nbits \<lfloor>x\<rfloor> - 1)) \<le> x" by (simp only: le_floor_iff)
    moreover have "bexp x = int (nbits \<lfloor>x\<rfloor> - 1)"
      using True nbits_pos [of "\<lfloor>x\<rfloor>"] by (simp add: bexp_def)
    ultimately show ?thesis by (simp add: pow2_nat)
  next
    case False
    with assms have x1: "x < 1" by simp
    define c where "c = \<lceil>1 / x\<rceil>"
    have "1 < 1 / x" using assms x1 by simp
    then have c2: "1 \<le> c - 1" unfolding c_def by (simp add: less_ceiling_iff)
    from nbits_bounds [OF c2] have "c - 1 < 2 ^ nbits (c - 1)" by simp
    then have "c \<le> 2 ^ nbits (c - 1)" by simp
    then have "1 / x \<le> of_int (2 ^ nbits (c - 1))" unfolding c_def by (simp only: ceiling_le_iff)
    then have "1 / x \<le> 2 ^ nbits (c - 1)" by simp
    then have "1 \<le> 2 ^ nbits (c - 1) * x" using assms by (simp add: field_simps)
    then have "1 / 2 ^ nbits (c - 1) \<le> x" by (simp add: field_simps)
    moreover have "bexp x = - int (nbits (c - 1))" using False by (simp add: bexp_def c_def)
    ultimately show ?thesis by (simp only: pow2_neg_nat)
  qed
  show "x < pow2 (bexp x + 1)"
  proof (cases "1 \<le> x")
    case True
    then have n1: "1 \<le> \<lfloor>x\<rfloor>" by simp
    from nbits_bounds [OF n1] have "\<lfloor>x\<rfloor> < 2 ^ nbits \<lfloor>x\<rfloor>" by simp
    then have "x < of_int (2 ^ nbits \<lfloor>x\<rfloor>)" by (simp only: floor_less_iff)
    moreover have "bexp x + 1 = int (nbits \<lfloor>x\<rfloor>)"
      using True by (simp add: bexp_def)
    ultimately show ?thesis by (simp add: pow2_nat)
  next
    case False
    with assms have x1: "x < 1" by simp
    define c where "c = \<lceil>1 / x\<rceil>"
    have "1 < 1 / x" using assms x1 by simp
    then have c2: "1 \<le> c - 1" unfolding c_def by (simp add: less_ceiling_iff)
    from nbits_bounds [OF c2] have "2 ^ (nbits (c - 1) - 1) \<le> c - 1" by simp
    then have "2 ^ (nbits (c - 1) - 1) < c" by simp
    then have "of_int (2 ^ (nbits (c - 1) - 1)) < 1 / x" unfolding c_def by (simp only: less_ceiling_iff)
    then have "2 ^ (nbits (c - 1) - 1) < 1 / x" by simp
    then have "2 ^ (nbits (c - 1) - 1) * x < 1" using assms by (simp add: field_simps)
    then have lt: "x < 1 / 2 ^ (nbits (c - 1) - 1)" by (simp add: field_simps)
    have adj: "bexp x + 1 = - int (nbits (c - 1) - 1)"
      using False nbits_pos [of "c - 1"] by (simp add: bexp_def c_def)
    show ?thesis using lt by (simp only: adj pow2_neg_nat)
  qed
qed

lemma round_half_even_near: "\<bar>of_int (round_half_even y) - y\<bar> \<le> 1 / 2"
proof -
  have "of_int \<lfloor>y\<rfloor> \<le> y" "y < of_int \<lfloor>y\<rfloor> + 1" by linarith+
  then show ?thesis by (auto simp: round_half_even_def Let_def abs_le_iff)
qed

text \<open>Below \<open>2^26\<close> the binary float is within \<open>2^-28\<close> of the amount.\<close>

lemma float_of_near:
  assumes pos: "0 < x" and lt: "x < 2 ^ 26"
  shows "\<exists>y. float_of x = FloatVal y \<and> \<bar>y - x\<bar> \<le> 1 / 2 ^ 28"
proof -
  define e where "e = max (bexp x - 52) (- 1074)"
  define q where "q = pow2 e"
  define y where "y = of_int (round_half_even (x / q)) * q"
  have qpos: "0 < q" by (simp add: q_def)
  have "pow2 (bexp x) \<le> x" using pos by (rule bexp_bounds(1))
  with lt have "pow2 (bexp x) < pow2 26" by (simp add: pow2_def)
  then have "bexp x < 26" by (rule pow2_less_cancel)
  then have "e \<le> - 27" by (simp add: e_def)
  then have "q \<le> pow2 (- 27)" unfolding q_def by (rule pow2_mono)
  then have q27: "q \<le> 1 / 2 ^ 27" by (simp add: pow2_def)
  have "\<bar>of_int (round_half_even (x / q)) - x / q\<bar> \<le> 1 / 2" by (rule round_half_even_near)
  then have "\<bar>of_int (round_half_even (x / q)) - x / q\<bar> * q \<le> 1 / 2 * q"
    using qpos by (simp only: mult_le_cancel_right_pos)
  moreover have "\<bar>of_int (round_half_even (x / q)) - x / q\<bar> * q = \<bar>y - x\<bar>"
  proof -
    have "(of_int (round_half_even (x / q)) - x / q) * q = y - x"
      using qpos by (simp add: y_def left_diff_distrib)
    then have "\<bar>y - x\<bar> = \<bar>of_int (round_half_even (x / q)) - x / q\<bar> * \<bar>q\<bar>"
      by (simp only: abs_mult [symmetric])
    then show ?thesis using qpos by simp
  qed
  ultimately have "\<bar>y - x\<bar> \<le> 1 / 2 * q" by simp
  with q27 have near: "\<bar>y - x\<bar> \<le> 1 / 2 ^ 28" by simp
  have "(1 :: rat) / 2 ^ 28 \<le> 1" by simp
  with near have "y - x \<le> 1" by linarith
  then have "y < 2 ^ 26 + 1" using lt by linarith
  then have "y < pow2 1024" by (simp add: pow2_def)
  moreover have "sgn x = 1" using pos by simp
  ultimately have "float_of x = FloatVal y"
    using pos by (simp add: float_of_def Let_def e_def q_def y_def abs_of_pos)
  with near show ?thesis by blast
qed

lemma float_of_round_back:
  assumes g: "on_grid x" and pos: "0 < x" and lt: "x < 2 ^ 26" and f: "float_of x = FloatVal y"
  shows "of_int \<lfloor>y * 10 ^ 8 + 1 / 2\<rfloor> / 10 ^ 8 = x"
proof -
  from float_of_near [OF pos lt] f have near: "\<bar>y - x\<bar> \<le> 1 / 2 ^ 28" by simp
  from g obtain k where k: "x = of_int k / 10 ^ 8" by (elim on_gridE)
  have "y * 10 ^ 8 - of_int k = (y - x) * 10 ^ 8" by (simp add: k left_diff_distrib)
  then have "\<bar>y * 10 ^ 8 - of_int k\<bar> = \<bar>y - x\<bar> * \<bar>10 ^ 8\<bar>"
    by (simp only: abs_mult [symmetric])
  then have "\<bar>y * 10 ^ 8 - of_int k\<bar> = \<bar>y - x\<bar> * 10 ^ 8" by simp
  also have "\<dots> \<le> 1 / 2 ^ 28 * 10 ^ 8" using near by simp
  also have "\<dots> < 1 / 2" by simp
  finally have "\<bar>y * 10 ^ 8 - of_int k\<bar> < 1 / 2" .
  then have "of_int k \<le> y * 10 ^ 8 + 1 / 2" "y * 10 ^ 8 + 1 / 2 < of_int k + 1" by linarith+
  then have "\<lfloor>y * 10 ^ 8 + 1 / 2\<rfloor> = k" by (rule floor_unique)
  then show ?thesis by (simp add: k)
qed

lemma nbits_numeral [simp]:
  "nbits (numeral n) = (if (numeral n :: int) < 2 then 1 else Suc (nbits (numeral n div 2)))"
  by (rule nbits.simps)

lemma nbits_1 [simp]: "nbits 1 = 1"
  by (simp add: nbits.simps [of 1])

lemma nbits_0 [simp]: "nbits 0 = 1"
  by (simp add: nbits.simps [of 0])

lemma float_of_4: "float_of 4 = FloatVal 4"
  by (simp add: float_of_def bexp_def pow2_def round_half_even_def Let_def)

lemma float_of_89999999_2: "float_of (89999999 + 2 / 10 ^ 8) = FloatVal (6039797692891137 / 67108864)"
  by (simp add: float_of_def bexp_def pow2_def round_half_even_def Let_def)

lemma float_of_89999999_1: "float_of (89999999 + 1 / 10 ^ 8) = FloatVal (6039797692891137 / 67108864)"
  by (simp add: float_of_def bexp_def pow2_def round_half_even_def Let_def)

section \<open>Facts about the tables\<close>

lemmas run_eval = run_def run_state_def init_state_def

lemma users_update_user [simp]: "users (update_user k f d) = update_rows k f (users d)"
  by (simp add: update_user_def)

lemma transfers_update_user [simp]: "transfers (update_user k f d) = transfers d"
  by (simp add: update_user_def)

lemma users_db_add_transfer [simp]: "users (db_add_transfer now k f t a x d) = users d"
  by (simp add: db_add_transfer_def)

lemma transfers_db_add_transfer [simp]:
  "transfers (db_add_transfer now k f t a x d) =
     transfers d @ [\<lparr>kind = k, from_tg = f, to_tg = t, amount = a, txid = x, ts = now\<rparr>]"
  by (simp add: db_add_transfer_def)

lemma map_fst_update_rows [simp]: "map fst (update_rows k f rows) = map fst rows"
  by (induction rows) (auto simp: update_rows_def)

lemma length_update_rows [simp]: "length (update_rows k f rows) = length rows"
  by (simp add: update_rows_def)

lemma map_of_update_rows:
  "map_of (update_rows k f rows) k' = (if k' = k then map_option f (map_of rows k) else map_of rows k')"
  by (induction rows) (auto simp: update_rows_def)

lemma db_get_user_update_user:
  "db_get_user (update_user k f d) k' =
     (if k' = k then map_option f (db_get_user d k) else db_get_user d k')"
  by (simp add: db_get_user_def map_of_update_rows)

lemma db_get_user_add_transfer [simp]:
  "db_get_user (db_add_transfer now k f t a x d) k' = db_get_user d k'"
  by (simp add: db_get_user_def)

lemma map_of_insert_row_other: "k' \<noteq> fst r \<Longrightarrow> map_of (insert_row r rows) k' = map_of rows k'"
  by (induction rows) (auto split: prod.splits)

lemma map_of_insert_row_same:
  "map_of rows k = None \<Longrightarrow> map_of (insert_row (k, u) rows) k = Some u"
  by (induction rows) (auto split: if_splits)

lemma set_insert_row [simp]: "set (insert_row r rows) = insert r (set rows)"
  by (induction rows) auto

lemma length_insert_row [simp]: "length (insert_row r rows) = Suc (length rows)"
  by (induction rows) auto

lemma filter_insert_row_same:
  "map_of rows k = None \<Longrightarrow> filter (\<lambda>r. fst r = k) (insert_row (k, u) rows) = [(k, u)]"
proof (induction rows)
  case Nil
  then show ?case by simp
next
  case (Cons x rows)
  then have "fst x \<noteq> k" "map_of rows k = None" by (auto split: if_splits)
  moreover from \<open>map_of rows k = None\<close> have "filter (\<lambda>r. fst r = k) rows = []"
    by (induction rows) (auto split: if_splits)
  ultimately show ?case using Cons.IH by simp
qed

lemma distinct_insert_row:
  "distinct (map fst (insert_row r rows)) \<longleftrightarrow> fst r \<notin> fst ` set rows \<and> distinct (map fst rows)"
  by (induction rows) auto

section \<open>C9: creating and refreshing an account\<close>

text \<open>
  Claim C9, as amended. \<^verbatim>\<open>db_upsert_user\<close> on an id that has an account keeps the row
  and every field of it but two: it overwrites \<open>username\<close> with the name of the message and
  \<open>last_active_ts\<close> with the clock reading; the number and the keys of the rows do not
  change. On an absent id it inserts exactly one row for the id, with balance 0, credited
  total 0 and no deposit address. Every other account and the transfer log are untouched.
\<close>

theorem upsert_user_effect:
  "(case db_get_user d k of
      Some u \<Rightarrow>
        db_get_user (db_upsert_user now k uname d) k = Some (u\<lparr>username := uname, last_active_ts := now\<rparr>)
        \<and> map fst (users (db_upsert_user now k uname d)) = map fst (users d)
    | None \<Rightarrow>
        filter (\<lambda>r. fst r = k) (users (db_upsert_user now k uname d)) =
          [(k, \<lparr>username = uname, deposit_address = None, credited_total = 0, balance = 0,
                last_faucet_ts = 0, last_active_ts = now, created_ts = now\<rparr>)]
        \<and> length (users (db_upsert_user now k uname d)) = Suc (length (users d)))
   \<and> (\<forall>k'. k' \<noteq> k \<longrightarrow> db_get_user (db_upsert_user now k uname d) k' = db_get_user d k')
   \<and> transfers (db_upsert_user now k uname d) = transfers d"
proof (cases "db_get_user d k")
  case None
  then have "map_of (users d) k = None" by (simp add: db_get_user_def)
  with None show ?thesis
    by (simp add: db_upsert_user_def db_get_user_def filter_insert_row_same map_of_insert_row_other)
next
  case (Some u)
  then show ?thesis
    by (simp add: db_upsert_user_def db_get_user_update_user)
qed

text \<open>
  Claim C9 as stated fails: a second call for the existing account 1 changes its stored
  row (the user name and the activity time are overwritten).
\<close>

theorem upsert_changes_existing_account:
  "db_get_user alice_db 1 \<noteq> None \<and>
   db_get_user (db_upsert_user 100 1 ''alice_new'' alice_db) 1 \<noteq> db_get_user alice_db 1"
  by (simp add: alice_db_def db_upsert_user_def db_get_user_def empty_db_def update_user_def update_rows_def)

text \<open>The amended claim at account 1 (present) and account 2 (absent) of the example.\<close>

theorem upsert_user_effect_witness:
  "db_get_user (db_upsert_user 100 1 ''alice_new'' alice_db) 1 =
     Some \<lparr>username = ''alice_new'', deposit_address = None, credited_total = 0, balance = 0,
           last_faucet_ts = 0, last_active_ts = 100, created_ts = 0\<rparr>
   \<and> filter (\<lambda>r. fst r = 2) (users (db_upsert_user 100 2 ''bob'' alice_db)) =
       [(2, \<lparr>username = ''bob'', deposit_address = None, credited_total = 0, balance = 0,
             last_faucet_ts = 0, last_active_ts = 100, created_ts = 100\<rparr>)]
   \<and> db_get_user (db_upsert_user 100 2 ''bob'' alice_db) 1 = db_get_user alice_db 1"
proof -
  have a: "db_get_user alice_db 1 = Some \<lparr>username = ''alice'', deposit_address = None, credited_total = 0, balance = 0,
           last_faucet_ts = 0, last_active_ts = 0, created_ts = 0\<rparr>"
    by (simp add: alice_db_def db_upsert_user_def db_get_user_def empty_db_def)
  have b: "db_get_user alice_db 2 = None"
    by (simp add: alice_db_def db_upsert_user_def db_get_user_def empty_db_def)
  from upsert_user_effect [where d = alice_db and k = 1 and now = 100 and uname = "''alice_new''"] a
  have 1: "db_get_user (db_upsert_user 100 1 ''alice_new'' alice_db) 1 =
     Some \<lparr>username = ''alice_new'', deposit_address = None, credited_total = 0, balance = 0,
           last_faucet_ts = 0, last_active_ts = 100, created_ts = 0\<rparr>" by simp
  from upsert_user_effect [where d = alice_db and k = 2 and now = 100 and uname = "''bob''"] b
  have 2: "filter (\<lambda>r. fst r = 2) (users (db_upsert_user 100 2 ''bob'' alice_db)) =
       [(2, \<lparr>username = ''bob'', deposit_address = None, credited_total = 0, balance = 0,
             last_faucet_ts = 0, last_active_ts = 100, created_ts = 100\<rparr>)]"
    and 3: "db_get_user (db_upsert_user 100 2 ''bob'' alice_db) 1 = db_get_user alice_db 1"
    by simp_all
  from 1 2 3 show ?thesis by simp
qed

section \<open>Helper facts for the handlers\<close>

lemmas dec_eval = dec_add_def dec_sub_def dec_mul_def dec_div_def ctx_round_def adjusted_def
  pow10_def round_half_even_def ndigits.simps Let_def quantize8_def trunc_int_def

lemmas db_eval = db_get_user_def db_upsert_user_def update_user_def update_rows_def
  db_update_balance_def db_add_transfer_def db_set_deposit_address_def
  db_set_credited_total_def db_set_last_faucet_def db_set_active_def empty_db_def uname_of_def

lemma funded_db_eq:
  "funded_db =
     \<lparr>users = [(1, \<lparr>username = ''alice'', deposit_address = None, credited_total = 0,
                      balance = 50, last_faucet_ts = 10000, last_active_ts = 10000,
                      created_ts = 10000\<rparr>)],
      transfers = [\<lparr>kind = Faucet, from_tg = None, to_tg = Some 1, amount = 50, txid = None,
                    ts = 10000\<rparr>]\<rparr>"
  by (simp add: funded_db_def cmd_faucet_def cfg0_def private_msg_def db_eval dec_eval)

lemma db_get_user_upsert_same:
  "db_get_user (db_upsert_user now k uname d) k =
     Some (case db_get_user d k of
             Some u \<Rightarrow> u\<lparr>username := uname, last_active_ts := now\<rparr>
           | None \<Rightarrow> \<lparr>username = uname, deposit_address = None, credited_total = 0, balance = 0,
                       last_faucet_ts = 0, last_active_ts = now, created_ts = now\<rparr>)"
  by (cases "db_get_user d k")
    (simp_all add: db_upsert_user_def db_get_user_update_user, simp add: db_get_user_def map_of_insert_row_same)

lemma db_get_user_upsert_other:
  "k' \<noteq> k \<Longrightarrow> db_get_user (db_upsert_user now k uname d) k' = db_get_user d k'"
  by (cases "db_get_user d k")
    (simp_all add: db_upsert_user_def db_get_user_update_user, simp add: db_get_user_def map_of_insert_row_other)

lemma transfers_upsert [simp]: "transfers (db_upsert_user now k uname d) = transfers d"
  by (cases "db_get_user d k") (simp_all add: db_upsert_user_def)

lemma upsert_keeps_ledger:
  assumes "db_get_user d k' = Some v"
  shows "\<exists>v'. db_get_user (db_upsert_user now k uname d) k' = Some v' \<and> balance v' = balance v
           \<and> credited_total v' = credited_total v \<and> deposit_address v' = deposit_address v
           \<and> last_faucet_ts v' = last_faucet_ts v"
proof (cases "k' = k")
  case True
  with assms show ?thesis by (simp add: db_get_user_upsert_same)
next
  case False
  with assms show ?thesis by (simp add: db_get_user_upsert_other)
qed

lemma dec_sub_le_0_iff: "dec_sub a b \<le> 0 \<longleftrightarrow> a \<le> b"
  by (simp add: dec_sub_def ctx_round_le_0_iff)

section \<open>C6: the rejections of a withdrawal\<close>

text \<open>
  Claim C6, as amended. \<^verbatim>\<open>cmd_withdraw\<close>, called in a private chat with a positive
  amount, checks the balance first: when the balance of the caller is below the amount it
  answers "Insufficient balance"; when the balance covers the amount and the amount does
  not exceed the fee it answers "Amount must be > fee". In both cases the database it
  leaves is the one after \<^verbatim>\<open>db_upsert_user\<close> at the start of the handler: the transfer
  log, and the balance, credited total and deposit address of every account, are as before
  the call. \<open>u\<close> is the row of the caller that line 276 reads.
\<close>

theorem withdraw_rejections:
  assumes "chat m = PRIVATE" and "0 < amt"
    and "db_get_user (db_upsert_user now (from_id m) (uname_of m) d) (from_id m) = Some u"
  shows "(balance u < amt \<longrightarrow>
            cmd_withdraw cfg now m (Some (Some amt, address)) send d =
              (InsufficientBalance, db_upsert_user now (from_id m) (uname_of m) d))
       \<and> (amt \<le> balance u \<and> amt \<le> WITHDRAW_FEE cfg \<longrightarrow>
            cmd_withdraw cfg now m (Some (Some amt, address)) send d =
              (AmountMustExceedFee, db_upsert_user now (from_id m) (uname_of m) d))
       \<and> transfers (db_upsert_user now (from_id m) (uname_of m) d) = transfers d
       \<and> (\<forall>k v. db_get_user d k = Some v \<longrightarrow>
             (\<exists>v'. db_get_user (db_upsert_user now (from_id m) (uname_of m) d) k = Some v'
                   \<and> balance v' = balance v \<and> credited_total v' = credited_total v
                   \<and> deposit_address v' = deposit_address v))"
proof -
  have "\<forall>k v. db_get_user d k = Some v \<longrightarrow>
             (\<exists>v'. db_get_user (db_upsert_user now (from_id m) (uname_of m) d) k = Some v'
                   \<and> balance v' = balance v \<and> credited_total v' = credited_total v
                   \<and> deposit_address v' = deposit_address v)"
    using upsert_keeps_ledger by blast
  then show ?thesis using assms
    by (simp add: cmd_withdraw_def Let_def dec_sub_le_0_iff)
qed

text \<open>
  Claim C6 as stated fails: with no balance, an amount of 0.5 that does not exceed the fee of
  1 is answered with "Insufficient balance", not with the fee message: the balance check
  comes first.
\<close>

theorem withdraw_checks_balance_first:
  "fst (cmd_withdraw cfg0 100 (private_msg 1 ''alice'') (Some (Some (1 / 2), ''addr''))
          (\<lambda>a x. Some ''tx'') empty_db) = InsufficientBalance
   \<and> (1 / 2 :: decimal) \<le> WITHDRAW_FEE cfg0"
  by (simp add: cmd_withdraw_def cfg0_def private_msg_def db_eval)

text \<open>The amended claim at balance 50, fee 1: amount 60 and amount 1.\<close>

theorem withdraw_rejections_witness:
  "cmd_withdraw cfg0 10001 (private_msg 1 ''alice'') (Some (Some 60, ''addr'')) (\<lambda>a x. Some ''tx'') funded_db =
     (InsufficientBalance, db_upsert_user 10001 1 ''alice'' funded_db)
   \<and> cmd_withdraw cfg0 10001 (private_msg 1 ''alice'') (Some (Some 1, ''addr'')) (\<lambda>a x. Some ''tx'') funded_db =
     (AmountMustExceedFee, db_upsert_user 10001 1 ''alice'' funded_db)"
proof -
  have u: "db_get_user (db_upsert_user 10001 (from_id (private_msg 1 ''alice''))
              (uname_of (private_msg 1 ''alice'')) funded_db) (from_id (private_msg 1 ''alice'')) =
           Some \<lparr>username = ''alice'', deposit_address = None, credited_total = 0,
                      balance = 50, last_faucet_ts = 10000, last_active_ts = 10001,
                      created_ts = 10000\<rparr>"
    by (simp add: funded_db_eq private_msg_def db_eval)
  have p: "chat (private_msg 1 ''alice'') = PRIVATE" by (simp add: private_msg_def)
  from withdraw_rejections [OF p _ u, of 60 cfg0 "''addr''" "\<lambda>a x. Some ''tx''"]
  have 1: "cmd_withdraw cfg0 10001 (private_msg 1 ''alice'') (Some (Some 60, ''addr'')) (\<lambda>a x. Some ''tx'') funded_db =
     (InsufficientBalance, db_upsert_user 10001 1 ''alice'' funded_db)"
    by (simp add: private_msg_def uname_of_def)
  from withdraw_rejections [OF p _ u, of 1 cfg0 "''addr''" "\<lambda>a x. Some ''tx''"]
  have 2: "cmd_withdraw cfg0 10001 (private_msg 1 ''alice'') (Some (Some 1, ''addr'')) (\<lambda>a x. Some ''tx'') funded_db =
     (AmountMustExceedFee, db_upsert_user 10001 1 ''alice'' funded_db)"
    by (simp add: private_msg_def uname_of_def cfg0_def)
  from 1 2 show ?thesis by simp
qed


lemma db_get_user_update_balance:
  "db_get_user (db_update_balance k b d) k' =
     (if k' = k then map_option (\<lambda>u. u\<lparr>balance := b\<rparr>) (db_get_user d k) else db_get_user d k')"
  by (simp add: db_update_balance_def db_get_user_update_user)

lemma transfers_update_balance [simp]: "transfers (db_update_balance k b d) = transfers d"
  by (simp add: db_update_balance_def)

lemma dec_sub_exact:
  "on_grid a \<Longrightarrow> on_grid b \<Longrightarrow> b \<le> a \<Longrightarrow> a < 10 ^ 10 \<Longrightarrow> 0 \<le> b \<Longrightarrow> dec_sub a b = a - b"
  unfolding dec_sub_def by (rule ctx_round_exact) (simp_all add: on_grid_diff)

section \<open>C4: a withdrawal whose send fails\<close>

text \<open>
  Claim C4. The send is attempted when the checks of \<^verbatim>\<open>cmd_withdraw\<close> have passed
  (private chat, positive amount, balance at least the amount, amount above the fee), and
  before any debit: when the node's answer to \<^verbatim>\<open>sendtoaddress\<close> is a failure, the
  handler answers "RPC error" and leaves the database as it is after the
  \<^verbatim>\<open>db_upsert_user\<close> of its first line: no transfer is appended and the balance and the
  credited total of every account are those before the call.
\<close>

theorem withdraw_send_failure:
  assumes "chat m = PRIVATE" and "0 < amt"
    and "db_get_user (db_upsert_user now (from_id m) (uname_of m) d) (from_id m) = Some u"
    and "amt \<le> balance u" and "WITHDRAW_FEE cfg < amt"
    and "send address (float_of (dec_sub amt (WITHDRAW_FEE cfg))) = None"
  shows "cmd_withdraw cfg now m (Some (Some amt, address)) send d =
           (RpcError, db_upsert_user now (from_id m) (uname_of m) d)
       \<and> transfers (db_upsert_user now (from_id m) (uname_of m) d) = transfers d
       \<and> (\<forall>k v. db_get_user d k = Some v \<longrightarrow>
             (\<exists>v'. db_get_user (db_upsert_user now (from_id m) (uname_of m) d) k = Some v'
                   \<and> balance v' = balance v \<and> credited_total v' = credited_total v))"
proof -
  have "\<forall>k v. db_get_user d k = Some v \<longrightarrow>
             (\<exists>v'. db_get_user (db_upsert_user now (from_id m) (uname_of m) d) k = Some v'
                   \<and> balance v' = balance v \<and> credited_total v' = credited_total v)"
    using upsert_keeps_ledger by blast
  then show ?thesis using assms
    by (simp add: cmd_withdraw_def Let_def dec_sub_le_0_iff)
qed

text \<open>A withdrawal of 5 from balance 50 whose send fails.\<close>

theorem withdraw_send_failure_witness:
  "cmd_withdraw cfg0 10001 (private_msg 1 ''alice'') (Some (Some 5, ''addr'')) (\<lambda>a x. None) funded_db =
     (RpcError, db_upsert_user 10001 1 ''alice'' funded_db)
   \<and> transfers (db_upsert_user 10001 1 ''alice'' funded_db) = transfers funded_db
   \<and> map_option balance (db_get_user (db_upsert_user 10001 1 ''alice'' funded_db) 1) = Some 50"
proof -
  have u: "db_get_user (db_upsert_user 10001 (from_id (private_msg 1 ''alice''))
              (uname_of (private_msg 1 ''alice'')) funded_db) (from_id (private_msg 1 ''alice'')) =
           Some \<lparr>username = ''alice'', deposit_address = None, credited_total = 0,
                      balance = 50, last_faucet_ts = 10000, last_active_ts = 10001,
                      created_ts = 10000\<rparr>"
    by (simp add: funded_db_eq private_msg_def db_eval)
  have p: "chat (private_msg 1 ''alice'') = PRIVATE" by (simp add: private_msg_def)
  from withdraw_send_failure [OF p _ u, of 5 cfg0 "\<lambda>a x. None" "''addr''"] u
  show ?thesis
    by (simp add: private_msg_def uname_of_def cfg0_def)
qed

section \<open>C5: a successful withdrawal\<close>

text \<open>
  Claim C5, as amended. For a withdrawal of \<open>amt\<close> that passes the checks
  (\<open>fee < amt \<le> balance\<close>): the node is asked to send \<^verbatim>\<open>float(send_amount)\<close>, the binary
  float nearest to \<open>send_amount = amt - fee\<close>. When that send succeeds with reference \<open>tx\<close>,
  the balance of the caller becomes \<open>balance - amt\<close>, nobody else changes, and exactly one
  transfer of kind \<^verbatim>\<open>withdraw\<close> is appended: it records the full amount \<open>amt\<close> (fee
  included) and \<open>tx\<close>. Both differences are Decimal subtractions at 18 significant digits;
  they are exact for amounts that are multiples of \<open>10^-8\<close> below \<open>10^10\<close>. The float is
  finite and within \<open>2^-28\<close> of \<open>amt - fee\<close> for such amounts below \<open>2^26 = 67108864\<close>, so
  that rounding it to 8 decimal places gives \<open>amt - fee\<close> back. The reply is the
  confirmation with the new balance when that is below \<open>10^10\<close>.
\<close>

theorem withdraw_success:
  assumes "chat m = PRIVATE" and "0 < amt"
    and "db_get_user (db_upsert_user now (from_id m) (uname_of m) d) (from_id m) = Some u"
    and "amt \<le> balance u" and "WITHDRAW_FEE cfg < amt"
    and "send address (float_of (dec_sub amt (WITHDRAW_FEE cfg))) = Some tx"
    and "cmd_withdraw cfg now m (Some (Some amt, address)) send d = (r, d')"
  shows "(dec_sub (balance u) amt < 10 ^ 10 \<longrightarrow>
            r = WithdrawalSubmitted tx (dec_sub (balance u) amt))
       \<and> db_get_user d' (from_id m) = Some (u\<lparr>balance := dec_sub (balance u) amt\<rparr>)
       \<and> (\<forall>k. k \<noteq> from_id m \<longrightarrow> db_get_user d' k = db_get_user d k)
       \<and> transfers d' = transfers d @
            [\<lparr>kind = Withdraw, from_tg = Some (from_id m), to_tg = None, amount = amt,
              txid = Some tx, ts = now\<rparr>]
       \<and> (on_grid amt \<and> on_grid (balance u) \<and> balance u < 10 ^ 10 \<longrightarrow>
            dec_sub (balance u) amt = balance u - amt)
       \<and> (on_grid amt \<and> on_grid (WITHDRAW_FEE cfg) \<and> 0 \<le> WITHDRAW_FEE cfg \<and> amt < 10 ^ 10 \<longrightarrow>
            dec_sub amt (WITHDRAW_FEE cfg) = amt - WITHDRAW_FEE cfg)
       \<and> (on_grid amt \<and> on_grid (WITHDRAW_FEE cfg) \<and> 0 \<le> WITHDRAW_FEE cfg \<and> amt < 2 ^ 26 \<longrightarrow>
            (\<exists>y. float_of (dec_sub amt (WITHDRAW_FEE cfg)) = FloatVal y
                \<and> \<bar>y - (amt - WITHDRAW_FEE cfg)\<bar> \<le> 1 / 2 ^ 28
                \<and> of_int \<lfloor>y * 10 ^ 8 + 1 / 2\<rfloor> / 10 ^ 8 = amt - WITHDRAW_FEE cfg))"
proof -
  let ?nb = "dec_sub (balance u) amt"
  let ?d2 = "db_add_transfer now Withdraw (Some (from_id m)) None amt (Some tx)
            (db_update_balance (from_id m) ?nb (db_upsert_user now (from_id m) (uname_of m) d))"
  have ex1: "on_grid amt \<and> on_grid (balance u) \<and> balance u < 10 ^ 10 \<longrightarrow>
            dec_sub (balance u) amt = balance u - amt"
    using assms(2,4) by (simp add: dec_sub_exact)
  have ex2: "on_grid amt \<and> on_grid (WITHDRAW_FEE cfg) \<and> 0 \<le> WITHDRAW_FEE cfg \<and> amt < 10 ^ 10 \<longrightarrow>
            dec_sub amt (WITHDRAW_FEE cfg) = amt - WITHDRAW_FEE cfg"
    using assms(5) by (simp add: dec_sub_exact)
  have ex3: "on_grid amt \<and> on_grid (WITHDRAW_FEE cfg) \<and> 0 \<le> WITHDRAW_FEE cfg \<and> amt < 2 ^ 26 \<longrightarrow>
            (\<exists>y. float_of (dec_sub amt (WITHDRAW_FEE cfg)) = FloatVal y
                \<and> \<bar>y - (amt - WITHDRAW_FEE cfg)\<bar> \<le> 1 / 2 ^ 28
                \<and> of_int \<lfloor>y * 10 ^ 8 + 1 / 2\<rfloor> / 10 ^ 8 = amt - WITHDRAW_FEE cfg)"
  proof
    assume h: "on_grid amt \<and> on_grid (WITHDRAW_FEE cfg) \<and> 0 \<le> WITHDRAW_FEE cfg \<and> amt < 2 ^ 26"
    let ?x = "amt - WITHDRAW_FEE cfg"
    have "amt < 10 ^ 10" using h by (rule_tac less_trans [of _ "2 ^ 26"]) simp_all
    with h assms(5) have eq: "dec_sub amt (WITHDRAW_FEE cfg) = ?x" by (simp add: dec_sub_exact)
    have g: "on_grid ?x" using h by (simp add: on_grid_diff)
    have pos: "0 < ?x" using assms(5) by simp
    have lt: "?x < 2 ^ 26" using h by linarith
    from float_of_near [OF pos lt] obtain y where
      y: "float_of ?x = FloatVal y" "\<bar>y - ?x\<bar> \<le> 1 / 2 ^ 28" by blast
    from float_of_round_back [OF g pos lt y(1)] y show
      "\<exists>y. float_of (dec_sub amt (WITHDRAW_FEE cfg)) = FloatVal y
                \<and> \<bar>y - (amt - WITHDRAW_FEE cfg)\<bar> \<le> 1 / 2 ^ 28
                \<and> of_int \<lfloor>y * 10 ^ 8 + 1 / 2\<rfloor> / 10 ^ 8 = amt - WITHDRAW_FEE cfg"
      unfolding eq by blast
  qed
  from assms have res: "d' = ?d2" "r = WithdrawalSubmitted tx ?nb"
    by (simp_all add: cmd_withdraw_def Let_def dec_sub_le_0_iff)
  have "db_get_user d' (from_id m) = Some (u\<lparr>balance := dec_sub (balance u) amt\<rparr>)"
    using assms(3) by (simp add: res(1) db_get_user_update_balance)
  moreover have "\<forall>k. k \<noteq> from_id m \<longrightarrow> db_get_user d' k = db_get_user d k"
    by (simp add: res(1) db_get_user_update_balance db_get_user_upsert_other)
  moreover have "transfers d' = transfers d @
            [\<lparr>kind = Withdraw, from_tg = Some (from_id m), to_tg = None, amount = amt,
              txid = Some tx, ts = now\<rparr>]"
    by (simp add: res(1))
  ultimately show ?thesis using res(2) ex1 ex2 ex3 by blast
qed

text \<open>
  Claim C5 as stated fails: a withdrawal of 5 with fee 1 appends a record of amount 5, not
  of the net amount 4 that was sent.
\<close>

theorem withdraw_records_full_amount:
  "fst (cmd_withdraw cfg0 10001 (private_msg 1 ''alice'') (Some (Some 5, ''addr''))
          (\<lambda>a x. if x = FloatVal 4 then Some ''tx'' else None) funded_db) =
     WithdrawalSubmitted ''tx'' 45
   \<and> amount (last (transfers (snd (cmd_withdraw cfg0 10001 (private_msg 1 ''alice'')
          (Some (Some 5, ''addr'')) (\<lambda>a x. if x = FloatVal 4 then Some ''tx'' else None)
          funded_db)))) = 5
   \<and> 5 - WITHDRAW_FEE cfg0 = 4"
  by (simp add: cmd_withdraw_def funded_db_eq cfg0_def private_msg_def db_eval dec_eval
      float_of_4)

text \<open>The amended claim for the withdrawal of 5 from balance 50; the node accepts a send of 4.\<close>

theorem withdraw_success_witness:
  "fst (cmd_withdraw cfg0 10001 (private_msg 1 ''alice'') (Some (Some 5, ''addr''))
          (\<lambda>a x. if x = FloatVal 4 then Some ''tx'' else None) funded_db) =
     WithdrawalSubmitted ''tx'' 45
   \<and> map_option balance (db_get_user (snd (cmd_withdraw cfg0 10001 (private_msg 1 ''alice'')
          (Some (Some 5, ''addr'')) (\<lambda>a x. if x = FloatVal 4 then Some ''tx'' else None)
          funded_db)) 1) = Some 45
   \<and> transfers (snd (cmd_withdraw cfg0 10001 (private_msg 1 ''alice'')
          (Some (Some 5, ''addr'')) (\<lambda>a x. if x = FloatVal 4 then Some ''tx'' else None)
          funded_db)) =
       transfers funded_db @ [\<lparr>kind = Withdraw, from_tg = Some 1, to_tg = None, amount = 5,
              txid = Some ''tx'', ts = 10001\<rparr>]
   \<and> float_of (dec_sub 5 (WITHDRAW_FEE cfg0)) = FloatVal 4"
proof -
  let ?m = "private_msg 1 ''alice''"
  let ?send = "\<lambda>(a::string) (x::pyfloat). if x = FloatVal 4 then Some ''tx'' else None"
  have u: "db_get_user (db_upsert_user 10001 (from_id ?m) (uname_of ?m) funded_db) (from_id ?m) =
           Some \<lparr>username = ''alice'', deposit_address = None, credited_total = 0,
                      balance = 50, last_faucet_ts = 10000, last_active_ts = 10001,
                      created_ts = 10000\<rparr>"
    by (simp add: funded_db_eq private_msg_def db_eval)
  have p: "chat ?m = PRIVATE" by (simp add: private_msg_def)
  have s4: "dec_sub 5 (WITHDRAW_FEE cfg0) = 4" by (simp add: cfg0_def dec_eval)
  have s45: "dec_sub 50 5 = 45" by (simp add: dec_eval)
  have snd: "?send ''addr'' (float_of (dec_sub 5 (WITHDRAW_FEE cfg0))) = Some ''tx''"
    by (simp add: s4 float_of_4)
  obtain r d' where rd: "cmd_withdraw cfg0 10001 ?m (Some (Some 5, ''addr'')) ?send funded_db = (r, d')"
    by (cases "cmd_withdraw cfg0 10001 ?m (Some (Some 5, ''addr'')) ?send funded_db")
  from withdraw_success [OF p _ u _ _ snd rd]
  have "r = WithdrawalSubmitted ''tx'' 45"
    and "map_option balance (db_get_user d' 1) = Some 45"
    and "transfers d' = transfers funded_db @ [\<lparr>kind = Withdraw, from_tg = Some 1, to_tg = None,
           amount = 5, txid = Some ''tx'', ts = 10001\<rparr>]"
    by (simp_all add: s45 cfg0_def private_msg_def)
  then show ?thesis unfolding rd by (simp add: s4 float_of_4)
qed

text \<open>
  Above \<open>2^26\<close> the float does not determine the amount: 89999999.00000002 and
  89999999.00000001 have the same binary float.
\<close>

lemma send_amounts_share_a_float:
  "float_of (89999999 + 2 / 10 ^ 8) = float_of (89999999 + 1 / 10 ^ 8)"
  by (simp only: float_of_89999999_2 float_of_89999999_1)


lemma dust_db_eq:
  "dust_db =
     \<lparr>users = [(1, \<lparr>username = ''alice'', deposit_address = None, credited_total = 0,
                      balance = 50, last_faucet_ts = 10000, last_active_ts = 10001,
                      created_ts = 10000\<rparr>),
               (2, \<lparr>username = ''Bob'', deposit_address = Some ''PbobAddress'', credited_total = 0,
                      balance = 1 / 10 ^ 19, last_faucet_ts = 0, last_active_ts = 10000,
                      created_ts = 10000\<rparr>)],
      transfers = [\<lparr>kind = Faucet, from_tg = None, to_tg = Some 1, amount = 50, txid = None,
                    ts = 10000\<rparr>,
                   \<lparr>kind = Tip, from_tg = Some 1, to_tg = Some 2, amount = 1 / 10 ^ 19, txid = None,
                    ts = 10001\<rparr>]\<rparr>"
  by (simp add: dust_db_def run_eval cmd_faucet_def cmd_start_def mark_active_def cmd_tip_def
      tip_single_def get_or_create_deposit_address_def cfg0_def private_msg_def group_msg_def
      db_eval lower_def lower_char_def char_of_def dec_eval)


lemmas db_set_defs = db_update_balance_def db_set_deposit_address_def db_set_credited_total_def
  db_set_last_faucet_def db_set_active_def

lemma dec_add_exact:
  "on_grid a \<Longrightarrow> on_grid b \<Longrightarrow> 0 \<le> a \<Longrightarrow> 0 \<le> b \<Longrightarrow> a + b < 10 ^ 10 \<Longrightarrow> dec_add a b = a + b"
  unfolding dec_add_def by (rule ctx_round_exact) (simp_all add: on_grid_add)

lemma addr_db_eq:
  "addr_db =
     \<lparr>users = [(1, \<lparr>username = ''alice'', deposit_address = Some ''PaliceAddress'',
                      credited_total = 0, balance = 0, last_faucet_ts = 0, last_active_ts = 0,
                      created_ts = 0\<rparr>)],
      transfers = []\<rparr>"
  by (simp add: addr_db_def cmd_start_def get_or_create_deposit_address_def private_msg_def db_eval)

section \<open>C10: the deposit address\<close>

text \<open>
  Claim C10, as amended. For an account whose deposit address is set (and not the empty
  string), \<^verbatim>\<open>get_or_create_deposit_address\<close> returns the stored address and writes
  nothing, whatever address the node would issue; so \<^verbatim>\<open>/start\<close> and \<^verbatim>\<open>/deposit\<close>
  leave the stored address as it is. The setter \<^verbatim>\<open>db_set_deposit_address\<close> itself has no
  failure: it overwrites the stored address.
\<close>

theorem deposit_address_kept:
  assumes "db_get_user d k = Some u" and "deposit_address u = Some a" and "a \<noteq> []"
  shows "get_or_create_deposit_address new_addr k d = (Inr a, d)
       \<and> (from_id m = k \<longrightarrow>
            map_option deposit_address (db_get_user (snd (cmd_start now m new_addr d)) k) = Some (Some a)
          \<and> map_option deposit_address (db_get_user (snd (cmd_deposit now m new_addr d)) k) = Some (Some a))
       \<and> db_get_user (db_set_deposit_address k b d) k = Some (u\<lparr>deposit_address := Some b\<rparr>)"
proof -
  have 1: "get_or_create_deposit_address new_addr k d = (Inr a, d)"
    using assms by (simp add: get_or_create_deposit_address_def)
  have 3: "db_get_user (db_set_deposit_address k b d) k = Some (u\<lparr>deposit_address := Some b\<rparr>)"
    using assms(1) by (simp add: db_set_deposit_address_def db_get_user_update_user)
  have 2: "map_option deposit_address (db_get_user (snd (cmd_start now m new_addr d)) k) = Some (Some a)
          \<and> map_option deposit_address (db_get_user (snd (cmd_deposit now m new_addr d)) k) = Some (Some a)"
    if "from_id m = k"
  proof -
    let ?d1 = "db_upsert_user now k (uname_of m) d"
    have g: "db_get_user ?d1 k = Some (u\<lparr>username := uname_of m, last_active_ts := now\<rparr>)"
      using assms(1) by (simp add: db_get_user_upsert_same)
    then have "get_or_create_deposit_address new_addr k ?d1 = (Inr a, ?d1)"
      using assms(2,3) by (simp add: get_or_create_deposit_address_def)
    then show ?thesis using that g assms(1,2)
      by (simp add: cmd_start_def cmd_deposit_def)
  qed
  from 1 2 3 show ?thesis by blast
qed

text \<open>
  Claim C10 as stated fails: a second call of the setter with another address does not
  fail, and replaces the stored address.
\<close>

theorem set_deposit_address_overwrites:
  "map_option deposit_address (db_get_user addr_db 1) = Some (Some ''PaliceAddress'')
   \<and> map_option deposit_address (db_get_user (db_set_deposit_address 1 ''PotherAddress'' addr_db) 1)
       = Some (Some ''PotherAddress'')"
  by (simp add: addr_db_eq db_eval)

text \<open>The amended claim for account 1 of the example, with a node that would issue another address.\<close>

theorem deposit_address_kept_witness:
  "get_or_create_deposit_address (Some ''PotherAddress'') 1 addr_db = (Inr ''PaliceAddress'', addr_db)
   \<and> map_option deposit_address
        (db_get_user (snd (cmd_deposit 50 (private_msg 1 ''alice'') (Some ''PotherAddress'') addr_db)) 1)
       = Some (Some ''PaliceAddress'')"
proof -
  have g: "db_get_user addr_db 1 = Some \<lparr>username = ''alice'', deposit_address = Some ''PaliceAddress'',
                      credited_total = 0, balance = 0, last_faucet_ts = 0, last_active_ts = 0,
                      created_ts = 0\<rparr>"
    by (simp add: addr_db_eq db_eval)
  from deposit_address_kept [OF g, of "''PaliceAddress''" "Some ''PotherAddress''" "private_msg 1 ''alice''" 50]
  show ?thesis by (simp add: private_msg_def)
qed

section \<open>C8: the faucet\<close>

text \<open>
  Claim C8, as amended. \<open>u\<close> is the row of the caller that \<^verbatim>\<open>cmd_faucet\<close> reads after its
  \<^verbatim>\<open>db_upsert_user\<close>. The claim is refused exactly when
  \<open>now - last_faucet_ts < FAUCET_INTERVAL\<close> (at equality it succeeds); then the row and the
  transfer log are unchanged. Otherwise the balance becomes the Decimal sum of the balance
  and the faucet amount at 18 significant digits (the exact sum for non-negative multiples
  of \<open>10^-8\<close> with a sum below \<open>10^10\<close>), \<open>last_faucet_ts\<close> becomes \<open>now\<close>, and exactly one
  transfer of kind \<^verbatim>\<open>faucet\<close> is appended. No other account changes.
\<close>

theorem faucet_claim:
  assumes "db_get_user (db_upsert_user now (from_id m) (uname_of m) d) (from_id m) = Some u"
    and "cmd_faucet cfg now m d = (r, d')"
  shows "(now - last_faucet_ts u < FAUCET_INTERVAL cfg \<longrightarrow>
            r = FaucetAvailableIn ((FAUCET_INTERVAL cfg - (now - last_faucet_ts u)) div 60)
          \<and> d' = db_upsert_user now (from_id m) (uname_of m) d
          \<and> db_get_user d' (from_id m) = Some u \<and> transfers d' = transfers d)
       \<and> (FAUCET_INTERVAL cfg \<le> now - last_faucet_ts u \<longrightarrow>
            r = FaucetReceived (dec_add (balance u) (FAUCET_AMOUNT cfg))
          \<and> db_get_user d' (from_id m) =
              Some (u\<lparr>balance := dec_add (balance u) (FAUCET_AMOUNT cfg), last_faucet_ts := now\<rparr>)
          \<and> transfers d' = transfers d @
              [\<lparr>kind = Faucet, from_tg = None, to_tg = Some (from_id m), amount = FAUCET_AMOUNT cfg,
                txid = None, ts = now\<rparr>]
          \<and> (on_grid (balance u) \<and> on_grid (FAUCET_AMOUNT cfg) \<and> 0 \<le> balance u
               \<and> 0 \<le> FAUCET_AMOUNT cfg \<and> balance u + FAUCET_AMOUNT cfg < 10 ^ 10 \<longrightarrow>
             dec_add (balance u) (FAUCET_AMOUNT cfg) = balance u + FAUCET_AMOUNT cfg))
       \<and> (\<forall>k. k \<noteq> from_id m \<longrightarrow> db_get_user d' k = db_get_user d k)"
proof (cases "now - last_faucet_ts u < FAUCET_INTERVAL cfg")
  case True
  with assms have "r = FaucetAvailableIn ((FAUCET_INTERVAL cfg - (now - last_faucet_ts u)) div 60)"
    and "d' = db_upsert_user now (from_id m) (uname_of m) d"
    by (simp_all add: cmd_faucet_def)
  with True assms(1) show ?thesis by (simp add: db_get_user_upsert_other)
next
  case False
  with assms have r: "r = FaucetReceived (dec_add (balance u) (FAUCET_AMOUNT cfg))"
    and d': "d' = db_add_transfer now Faucet None (Some (from_id m)) (FAUCET_AMOUNT cfg) None
                   (db_set_last_faucet (from_id m) now
                      (db_update_balance (from_id m) (dec_add (balance u) (FAUCET_AMOUNT cfg))
                         (db_upsert_user now (from_id m) (uname_of m) d)))"
    by (simp_all add: cmd_faucet_def Let_def)
  have "db_get_user d' (from_id m) =
          Some (u\<lparr>balance := dec_add (balance u) (FAUCET_AMOUNT cfg), last_faucet_ts := now\<rparr>)"
    using assms(1) by (simp add: d' db_set_defs db_get_user_update_user)
  moreover have "\<forall>k. k \<noteq> from_id m \<longrightarrow> db_get_user d' k = db_get_user d k"
    by (simp add: d' db_set_defs db_get_user_update_user db_get_user_upsert_other)
  moreover have "transfers d' = transfers d @
              [\<lparr>kind = Faucet, from_tg = None, to_tg = Some (from_id m), amount = FAUCET_AMOUNT cfg,
                txid = None, ts = now\<rparr>]"
    by (simp add: d' db_set_defs)
  ultimately show ?thesis using False r by (simp add: dec_add_exact)
qed

text \<open>
  Claim C8 as stated fails: account 2 holds \<open>10^-19\<close>; its faucet claim of 50 leaves the
  balance 50, which is not the old balance plus 50.
\<close>

theorem faucet_credit_is_rounded:
  "map_option balance (db_get_user dust_db 2) = Some (1 / 10 ^ 19)
   \<and> fst (cmd_faucet cfg0 20000 (private_msg 2 ''Bob'') dust_db) = FaucetReceived 50
   \<and> map_option balance (db_get_user (snd (cmd_faucet cfg0 20000 (private_msg 2 ''Bob'') dust_db)) 2)
       = Some 50
   \<and> (1 / 10 ^ 19 + FAUCET_AMOUNT cfg0 \<noteq> 50)"
  by (simp add: dust_db_eq cmd_faucet_def cfg0_def private_msg_def db_eval dec_eval)

text \<open>
  The amended claim for account 1 (last claim at 10000, interval 7200): a claim at 17200,
  the boundary, succeeds; a claim at 17199 is refused and the balance stays 50.
\<close>

theorem faucet_claim_witness:
  "fst (cmd_faucet cfg0 17200 (private_msg 1 ''alice'') funded_db) = FaucetReceived 100
   \<and> fst (cmd_faucet cfg0 17199 (private_msg 1 ''alice'') funded_db) = FaucetAvailableIn 0
   \<and> map_option balance (db_get_user (snd (cmd_faucet cfg0 17199 (private_msg 1 ''alice'') funded_db)) 1)
       = Some 50"
proof -
  let ?m = "private_msg 1 ''alice''"
  have u: "db_get_user (db_upsert_user t (from_id ?m) (uname_of ?m) funded_db) (from_id ?m) =
           Some \<lparr>username = ''alice'', deposit_address = None, credited_total = 0,
                      balance = 50, last_faucet_ts = 10000, last_active_ts = t,
                      created_ts = 10000\<rparr>" for t
    by (simp add: funded_db_eq private_msg_def db_eval)
  obtain r1 d1 where a: "cmd_faucet cfg0 17200 ?m funded_db = (r1, d1)"
    by (cases "cmd_faucet cfg0 17200 ?m funded_db")
  obtain r2 d2 where b: "cmd_faucet cfg0 17199 ?m funded_db = (r2, d2)"
    by (cases "cmd_faucet cfg0 17199 ?m funded_db")
  have s: "dec_add 50 50 = 100" by (simp add: dec_eval)
  from faucet_claim [OF u a] have "r1 = FaucetReceived 100" by (simp add: cfg0_def s)
  moreover from faucet_claim [OF u b] u [of 17199] have "r2 = FaucetAvailableIn 0"
    "map_option balance (db_get_user d2 1) = Some 50" by (simp_all add: cfg0_def private_msg_def)
  ultimately show ?thesis unfolding a b by simp
qed


section \<open>C3: crediting a deposit\<close>

text \<open>
  Claim C3, as amended. The body of the scanner loop for the row of account \<open>k\<close>, with the
  node reporting the cumulative amount \<open>t\<close>: when \<open>t \<le> credited_total\<close> it changes nothing;
  when \<open>t > credited_total\<close> it sets the balance to \<open>balance + diff\<close> with
  \<open>diff = t - credited_total\<close>, sets \<open>credited_total\<close> to \<open>t\<close>, appends exactly one transfer
  of kind \<^verbatim>\<open>deposit\<close> and amount \<open>diff\<close>, and leaves every other account alone; applying the
  same value \<open>t\<close> again to the new row changes nothing. The sum and the difference are
  Decimal operations at 18 significant digits; they are the exact ones for non-negative
  multiples of \<open>10^-8\<close> with \<open>balance + t\<close> below \<open>10^10\<close>.
\<close>

theorem credit_row_effect:
  assumes "db_get_user d k = Some u" and "received addr = Some t"
  shows "(t \<le> credited_total u \<longrightarrow>
            credit_row now received (k, addr, credited_total u, balance u) d = d)
       \<and> (credited_total u < t \<longrightarrow>
            (let diff = dec_sub t (credited_total u);
                 new_bal = dec_add (balance u) diff;
                 d' = credit_row now received (k, addr, credited_total u, balance u) d
             in db_get_user d' k = Some (u\<lparr>balance := new_bal, credited_total := t\<rparr>)
              \<and> (\<forall>k'. k' \<noteq> k \<longrightarrow> db_get_user d' k' = db_get_user d k')
              \<and> transfers d' = transfers d @
                   [\<lparr>kind = Deposit, from_tg = None, to_tg = Some k, amount = diff, txid = None,
                     ts = now\<rparr>]
              \<and> credit_row now' received (k, addr, t, new_bal) d' = d'
              \<and> (on_grid t \<and> on_grid (credited_total u) \<and> on_grid (balance u)
                   \<and> 0 \<le> credited_total u \<and> 0 \<le> balance u \<and> balance u + t < 10 ^ 10 \<longrightarrow>
                  diff = t - credited_total u \<and> new_bal = balance u + (t - credited_total u))))"
proof (cases "credited_total u < t")
  case False
  with assms show ?thesis by (simp add: credit_row_def)
next
  case True
  let ?diff = "dec_sub t (credited_total u)"
  let ?nb = "dec_add (balance u) ?diff"
  let ?d' = "credit_row now received (k, addr, credited_total u, balance u) d"
  have d': "?d' = db_add_transfer now Deposit None (Some k) ?diff None
                   (db_set_credited_total k t (db_update_balance k ?nb d))"
    using True assms(2) by (simp add: credit_row_def Let_def)
  have 1: "db_get_user ?d' k = Some (u\<lparr>balance := ?nb, credited_total := t\<rparr>)"
    using assms(1) by (simp add: d' db_set_defs db_get_user_update_user)
  have 2: "\<forall>k'. k' \<noteq> k \<longrightarrow> db_get_user ?d' k' = db_get_user d k'"
    by (simp add: d' db_set_defs db_get_user_update_user)
  have 3: "transfers ?d' = transfers d @
                   [\<lparr>kind = Deposit, from_tg = None, to_tg = Some k, amount = ?diff, txid = None,
                     ts = now\<rparr>]"
    by (simp add: d' db_set_defs)
  have 4: "credit_row now' received (k, addr, t, ?nb) ?d' = ?d'"
    using assms(2) by (simp add: credit_row_def)
  have 5: "?diff = t - credited_total u \<and> ?nb = balance u + (t - credited_total u)"
    if g: "on_grid t \<and> on_grid (credited_total u) \<and> on_grid (balance u)
                   \<and> 0 \<le> credited_total u \<and> 0 \<le> balance u \<and> balance u + t < 10 ^ 10"
  proof -
    from g True have "?diff = t - credited_total u"
      by (intro dec_sub_exact) simp_all
    moreover from g True have "dec_add (balance u) (t - credited_total u) = balance u + (t - credited_total u)"
      by (intro dec_add_exact) (simp_all add: on_grid_diff)
    ultimately show ?thesis by simp
  qed
  have 0: "\<not> t \<le> credited_total u" using True by simp
  show ?thesis unfolding Let_def using 0 1 2 3 4 5 by blast
qed

text \<open>
  Claim C3 as stated fails: account 2 holds \<open>10^-19\<close> and has credited total 0; a pass of
  the scanner that sees 50 received leaves the balance 50, not \<open>10^-19 + 50\<close>.
\<close>

theorem deposit_credit_is_rounded:
  "map_option balance (db_get_user dust_db 2) = Some (1 / 10 ^ 19)
   \<and> map_option credited_total (db_get_user dust_db 2) = Some 0
   \<and> map_option balance
        (db_get_user (scanner_pass 20000 (\<lambda>a. if a = ''PbobAddress'' then Some 50 else None) dust_db) 2)
       = Some 50
   \<and> (1 / 10 ^ 19 + (50 - 0) \<noteq> (50 :: decimal))"
  by (simp add: dust_db_eq scanner_pass_def scan_rows_def credit_row_def db_eval dec_eval)

text \<open>The amended claim for account 1 of the example: 50 received, seen twice.\<close>

theorem credit_row_effect_witness:
  "(let recv = (\<lambda>a. if a = ''PaliceAddress'' then Some 50 else None);
        d1 = credit_row 100 recv (1, ''PaliceAddress'', 0, 0) addr_db
    in map_option balance (db_get_user d1 1) = Some 50
     \<and> map_option credited_total (db_get_user d1 1) = Some 50
     \<and> map amount (transfers d1) = [50]
     \<and> credit_row 130 recv (1, ''PaliceAddress'', 50, 50) d1 = d1)"
proof -
  let ?recv = "\<lambda>a. if a = ''PaliceAddress'' then Some (50 :: decimal) else None"
  let ?u = "\<lparr>username = ''alice'', deposit_address = Some ''PaliceAddress'',
                      credited_total = 0, balance = 0, last_faucet_ts = 0, last_active_ts = 0,
                      created_ts = 0\<rparr>"
  have g: "db_get_user addr_db 1 = Some ?u"
    by (simp add: addr_db_eq db_eval)
  have r: "?recv ''PaliceAddress'' = Some 50" by simp
  have s: "dec_sub 50 0 = 50" "dec_add 0 50 = 50" by (simp_all add: dec_eval)
  from credit_row_effect [where received = ?recv and addr = "''PaliceAddress''" and t = 50
      and now = 100 and now' = 130, OF g r]
  show ?thesis by (simp add: Let_def s addr_db_eq)
qed

section \<open>C2: balances are never negative\<close>

lemma nonneg_empty [simp]: "nonneg empty_db"
  by (simp add: nonneg_def empty_db_def)

lemma nonneg_update_user:
  "nonneg d \<Longrightarrow> (\<And>u. 0 \<le> balance u \<Longrightarrow> 0 \<le> balance (f u)) \<Longrightarrow> nonneg (update_user k f d)"
  by (fastforce simp: nonneg_def update_rows_def split: if_splits)

lemma nonneg_add_transfer [simp]: "nonneg (db_add_transfer now k f t a x d) = nonneg d"
  by (simp add: nonneg_def)

lemma nonneg_upsert: "nonneg d \<Longrightarrow> nonneg (db_upsert_user now k uname d)"
  by (cases "db_get_user d k") (auto simp: db_upsert_user_def nonneg_update_user, auto simp: nonneg_def)

lemma nonneg_update_balance: "nonneg d \<Longrightarrow> 0 \<le> b \<Longrightarrow> nonneg (db_update_balance k b d)"
  by (simp add: db_update_balance_def nonneg_update_user)

lemma nonneg_set_active: "nonneg d \<Longrightarrow> nonneg (db_set_active now k d)"
  by (simp add: db_set_active_def nonneg_update_user)

lemma nonneg_set_last_faucet: "nonneg d \<Longrightarrow> nonneg (db_set_last_faucet k t d)"
  by (simp add: db_set_last_faucet_def nonneg_update_user)

lemma nonneg_set_credited_total: "nonneg d \<Longrightarrow> nonneg (db_set_credited_total k t d)"
  by (simp add: db_set_credited_total_def nonneg_update_user)

lemma nonneg_set_deposit_address: "nonneg d \<Longrightarrow> nonneg (db_set_deposit_address k a d)"
  by (simp add: db_set_deposit_address_def nonneg_update_user)

lemma nonneg_get: "nonneg d \<Longrightarrow> db_get_user d k = Some u \<Longrightarrow> 0 \<le> balance u"
  by (auto simp: nonneg_def db_get_user_def dest!: map_of_SomeD)

lemma dec_add_nonneg: "0 \<le> a \<Longrightarrow> 0 \<le> b \<Longrightarrow> 0 \<le> dec_add a b"
  by (simp add: dec_add_def ctx_round_nonneg)

lemma dec_sub_nonneg: "b \<le> a \<Longrightarrow> 0 \<le> dec_sub a b"
  by (simp add: dec_sub_def ctx_round_nonneg)

lemma quantize8_Inr:
  "quantize8 x = Inr s \<Longrightarrow> 0 \<le> x \<Longrightarrow> s = of_int \<lfloor>x * 10 ^ 8\<rfloor> / 10 ^ 8"
  by (simp add: quantize8_def Let_def trunc_int_def split: if_splits)

lemma quantize8_nonneg:
  assumes "quantize8 x = Inr s" and "0 \<le> x"
  shows "0 \<le> s"
proof -
  have "0 \<le> \<lfloor>x * 10 ^ 8\<rfloor>" using assms(2) by simp
  then have "(0::rat) \<le> of_int \<lfloor>x * 10 ^ 8\<rfloor> / 10 ^ 8" by simp
  then show ?thesis by (simp only: quantize8_Inr [OF assms])
qed

lemma nonneg_get_or_create:
  "nonneg d \<Longrightarrow> nonneg (snd (get_or_create_deposit_address a k d))"
  by (auto simp: get_or_create_deposit_address_def Let_def nonneg_set_deposit_address
      split: option.splits)

lemma nonneg_cmd_start: "nonneg d \<Longrightarrow> nonneg (snd (cmd_start now m a d))"
  using nonneg_get_or_create [OF nonneg_upsert, where d1 = d and a = a and k = "from_id m"
      and now1 = now and k1 = "from_id m" and uname1 = "uname_of m"]
  by (auto simp: cmd_start_def split: prod.splits sum.splits)

lemma nonneg_cmd_deposit: "nonneg d \<Longrightarrow> nonneg (snd (cmd_deposit now m a d))"
  using nonneg_get_or_create [OF nonneg_upsert, where d1 = d and a = a and k = "from_id m"
      and now1 = now and k1 = "from_id m" and uname1 = "uname_of m"]
  by (auto simp: cmd_deposit_def split: prod.splits sum.splits)

lemma nonneg_cmd_balance: "nonneg d \<Longrightarrow> nonneg (snd (cmd_balance now m d))"
  by (auto simp: cmd_balance_def Let_def nonneg_upsert split: option.splits)

lemma nonneg_mark_active: "nonneg d \<Longrightarrow> nonneg (mark_active now m d)"
  by (simp add: mark_active_def nonneg_set_active nonneg_upsert)

lemma nonneg_cmd_withdraw: "nonneg d \<Longrightarrow> nonneg (snd (cmd_withdraw cfg now m args send d))"
  by (auto simp: cmd_withdraw_def Let_def nonneg_upsert nonneg_update_balance dec_sub_nonneg
      split: option.splits prod.splits)

lemma nonneg_cmd_faucet:
  "nonneg d \<Longrightarrow> 0 \<le> FAUCET_AMOUNT cfg \<Longrightarrow> nonneg (snd (cmd_faucet cfg now m d))"
proof -
  assume n: "nonneg d" and f: "0 \<le> FAUCET_AMOUNT cfg"
  let ?d1 = "db_upsert_user now (from_id m) (uname_of m) d"
  have n1: "nonneg ?d1" using n by (rule nonneg_upsert)
  show ?thesis
  proof (cases "db_get_user ?d1 (from_id m)")
    case None
    then show ?thesis using n1 by (simp add: cmd_faucet_def)
  next
    case (Some u)
    then have "0 \<le> balance u" using n1 nonneg_get by blast
    then have "0 \<le> dec_add (balance u) (FAUCET_AMOUNT cfg)" using f by (rule dec_add_nonneg)
    then show ?thesis using Some n1
      by (simp add: cmd_faucet_def Let_def nonneg_set_last_faucet nonneg_update_balance)
  qed
qed

lemma nonneg_tip_each:
  "nonneg d \<Longrightarrow> 0 \<le> share \<Longrightarrow> nonneg (case tip_each now s share uids d of Inl d' \<Rightarrow> d' | Inr d' \<Rightarrow> d')"
proof (induction uids arbitrary: d)
  case Nil
  then show ?case by simp
next
  case (Cons uid uids)
  show ?case
  proof (cases "db_get_user d uid")
    case None
    then show ?thesis using Cons.prems by simp
  next
    case (Some u)
    then have "0 \<le> dec_add (balance u) share"
      using Cons.prems nonneg_get dec_add_nonneg by blast
    then have "nonneg (db_add_transfer now Tip (Some s) (Some uid) share None
                 (db_update_balance uid (dec_add (balance u) share) d))"
      using Cons.prems(1) by (simp add: nonneg_update_balance)
    from Cons.IH [OF this Cons.prems(2)] Some show ?thesis by simp
  qed
qed

lemma nonneg_tip_split:
  assumes "nonneg d" and "0 < amt"
  shows "nonneg (snd (tip_split now s sender amt recipients d))"
proof (cases "quantize8 (dec_div amt (of_nat (length recipients)))")
  case (Inl e)
  then show ?thesis using assms by (simp add: tip_split_def)
next
  case (Inr share)
  have "0 \<le> amt / of_nat (length recipients)" using assms(2) by simp
  then have "0 \<le> dec_div amt (of_nat (length recipients))"
    unfolding dec_div_def by (rule ctx_round_nonneg)
  with Inr have sh: "0 \<le> share" by (rule quantize8_nonneg)
  let ?tot = "dec_mul share (of_nat (length recipients))"
  show ?thesis
  proof (cases "balance sender < ?tot")
    case True
    then show ?thesis using Inr assms by (simp add: tip_split_def)
  next
    case False
    then have "0 \<le> dec_sub (balance sender) ?tot" by (intro dec_sub_nonneg) simp
    then have "nonneg (db_update_balance s (dec_sub (balance sender) ?tot) d)"
      using assms(1) by (simp add: nonneg_update_balance)
    from nonneg_tip_each [OF this sh, of now s recipients] False Inr show ?thesis
      by (auto simp: tip_split_def Let_def nonneg_set_active split: sum.splits)
  qed
qed

lemma nonneg_tip_single:
  assumes "nonneg d" and "0 < amt" and "amt \<le> balance sender"
  shows "nonneg (snd (tip_single now s sender amt uid d))"
proof -
  let ?d1 = "db_update_balance s (dec_sub (balance sender) amt) d"
  have n1: "nonneg ?d1" using assms by (simp add: nonneg_update_balance dec_sub_nonneg)
  show ?thesis
  proof (cases "db_get_user ?d1 uid")
    case None
    then show ?thesis using n1 by (simp add: tip_single_def)
  next
    case (Some u)
    then have "0 \<le> dec_add (balance u) amt"
      using n1 assms(2) nonneg_get [OF n1 Some] by (intro dec_add_nonneg) simp_all
    then show ?thesis using Some n1
      by (simp add: tip_single_def Let_def nonneg_set_active nonneg_update_balance)
  qed
qed

lemma nonneg_cmd_tip: "nonneg d \<Longrightarrow> nonneg (snd (cmd_tip cfg now m args rnd d))"
  by (auto simp: cmd_tip_def Let_def nonneg_tip_single nonneg_tip_split
      split: tip_input.splits option.splits tip_mode.splits)

lemma nonneg_credit_row:
  assumes "nonneg d" and "0 \<le> bal"
  shows "nonneg (credit_row now received (k, a, c, bal) d)"
proof (cases "received a")
  case None
  then show ?thesis using assms by (simp add: credit_row_def)
next
  case (Some t)
  show ?thesis
  proof (cases "c < t")
    case False
    then show ?thesis using Some assms by (simp add: credit_row_def)
  next
    case True
    then have "0 \<le> dec_sub t c" by (intro dec_sub_nonneg) simp
    then have "0 \<le> dec_add bal (dec_sub t c)" using assms(2) by (intro dec_add_nonneg)
    then show ?thesis using True Some assms(1)
      by (simp add: credit_row_def Let_def nonneg_set_credited_total nonneg_update_balance)
  qed
qed

lemma scan_rows_nonneg: "nonneg d \<Longrightarrow> \<forall>(k, a, c, bal) \<in> set (scan_rows d). 0 \<le> bal"
  by (auto simp: scan_rows_def nonneg_def split: option.splits)

lemma credit_row_skip: "\<not> credits received row \<Longrightarrow> credit_row now received row d = d"
  by (cases row) (simp add: credits_def credit_row_def split: option.splits)

lemma scan_segment_rest: "set (fst (scan_segment now received rows d)) \<subseteq> set rows"
proof (induction rows arbitrary: d)
  case Nil
  then show ?case by simp
next
  case (Cons row rows)
  from Cons [of "credit_row now received row d"] show ?case by auto
qed

lemma scan_segment_store:
  "snd (scan_segment now received rows d) =
     (case first_credit received rows of
        None \<Rightarrow> d
      | Some row \<Rightarrow> credit_row now received row d)"
  by (induction rows arbitrary: d) (simp_all add: credit_row_skip)

lemma first_credit_member: "first_credit received rows = Some row \<Longrightarrow> row \<in> set rows"
  by (induction rows) (auto split: if_splits)

lemma nonneg_scan_segment:
  assumes "nonneg d" and "\<forall>(k, a, c, bal) \<in> set rows. 0 \<le> bal"
  shows "nonneg (snd (scan_segment now received rows d))"
proof (cases "first_credit received rows")
  case None
  then show ?thesis using assms(1) by (simp add: scan_segment_store)
next
  case (Some row)
  obtain k a c bal where row: "row = (k, a, c, bal)" by (cases row)
  from first_credit_member [OF Some] assms(2) row have "0 \<le> bal" by auto
  with assms(1) have "nonneg (credit_row now received (k, a, c, bal) d)"
    by (rule nonneg_credit_row)
  then show ?thesis using Some row by (simp add: scan_segment_store)
qed

lemma nonneg_step:
  assumes "nonneg (store s)" and "\<forall>(k, a, c, bal) \<in> set (rows_left s). 0 \<le> bal"
    and "0 \<le> FAUCET_AMOUNT cfg"
  shows "nonneg (store (step cfg s e))
       \<and> (\<forall>(k, a, c, bal) \<in> set (rows_left (step cfg s e)). 0 \<le> bal)"
proof (cases e)
  case (EvScan now received)
  let ?rows = "if rows_left s = [] then scan_rows (store s) else rows_left s"
  have r: "\<forall>(k, a, c, bal) \<in> set ?rows. 0 \<le> bal"
    using assms(2) scan_rows_nonneg [OF assms(1)] by simp
  obtain rest d' where sg: "scan_segment now received ?rows (store s) = (rest, d')"
    by (cases "scan_segment now received ?rows (store s)")
  have "nonneg d'" using nonneg_scan_segment [OF assms(1) r, of now received] sg by simp
  moreover have "set rest \<subseteq> set ?rows"
    using scan_segment_rest [of now received ?rows "store s"] sg by simp
  with r have "\<forall>(k, a, c, bal) \<in> set rest. 0 \<le> bal" by blast
  ultimately show ?thesis using EvScan sg by (simp add: Let_def)
qed (simp_all add: assms nonneg_cmd_start nonneg_cmd_deposit nonneg_cmd_balance
      nonneg_cmd_withdraw nonneg_mark_active nonneg_cmd_tip nonneg_cmd_faucet)

lemma nonneg_foldl:
  "nonneg (store s) \<Longrightarrow> \<forall>(k, a, c, bal) \<in> set (rows_left s). 0 \<le> bal \<Longrightarrow>
   0 \<le> FAUCET_AMOUNT cfg \<Longrightarrow> nonneg (store (foldl (step cfg) s evs))"
proof (induction evs arbitrary: s)
  case Nil
  then show ?case by simp
next
  case (Cons e evs)
  from nonneg_step [OF Cons.prems, of e] Cons.prems(3) show ?case
    by (simp add: Cons.IH)
qed

lemma cmd_tip_insufficient:
  assumes "chat m = GROUP \<or> chat m = SUPERGROUP" and "db_get_user d (from_id m) = Some s"
    and "0 < amt" and "balance s < amt"
  shows "cmd_tip cfg now m (Parsed mode amt) rnd d = (InsufficientBalance, d)"
  using assms by (auto simp: cmd_tip_def)

lemma cmd_withdraw_insufficient:
  assumes "chat m = PRIVATE"
    and "db_get_user (db_upsert_user now (from_id m) (uname_of m) d) (from_id m) = Some u"
    and "0 < amt" and "balance u < amt"
  shows "cmd_withdraw cfg now m (Some (Some amt, address)) send d =
           (InsufficientBalance, db_upsert_user now (from_id m) (uname_of m) d)"
  using assms by (simp add: cmd_withdraw_def Let_def)

text \<open>
  Claim C2. With a faucet amount that is not negative, every balance is at least 0 after
  each operation of every run from the empty database (after every prefix \<open>take n evs\<close> of
  the run). Every debit is guarded: a tip, in every mode, of more than the balance of the
  sender is refused with "Insufficient balance" and changes nothing, and a withdrawal of
  more than the balance is refused with the same answer and debits nothing.
\<close>

theorem balances_never_negative:
  assumes "0 \<le> FAUCET_AMOUNT cfg"
  shows "(\<forall>n. \<forall>(k, u) \<in> set (users (run cfg (take n evs))). 0 \<le> balance u)
       \<and> (\<forall>s. (chat m = GROUP \<or> chat m = SUPERGROUP) \<and> db_get_user d (from_id m) = Some s
              \<and> 0 < amt \<and> balance s < amt \<longrightarrow>
            cmd_tip cfg now m (Parsed mode amt) rnd d = (InsufficientBalance, d))
       \<and> (\<forall>u. chat m' = PRIVATE
              \<and> db_get_user (db_upsert_user now (from_id m') (uname_of m') d) (from_id m') = Some u
              \<and> 0 < amt \<and> balance u < amt \<longrightarrow>
            cmd_withdraw cfg now m' (Some (Some amt, address)) send d =
              (InsufficientBalance, db_upsert_user now (from_id m') (uname_of m') d))"
proof -
  have "\<forall>n. \<forall>(k, u) \<in> set (users (run cfg (take n evs))). 0 \<le> balance u"
    using nonneg_foldl [of init_state cfg] nonneg_empty assms
    by (simp add: run_eval nonneg_def)
  then show ?thesis
    using cmd_tip_insufficient cmd_withdraw_insufficient by blast
qed

text \<open>The run of the example: the withdrawal of 60 is refused, the one of 50 leaves balance 0.\<close>

theorem balances_never_negative_witness:
  "0 \<le> FAUCET_AMOUNT cfg0
   \<and> list_all (\<lambda>(k, u). 0 \<le> balance u) (users (run cfg0 spend_events))
   \<and> map (\<lambda>(k, u). balance u) (users (run cfg0 spend_events)) = [0]"
proof -
  have f: "0 \<le> FAUCET_AMOUNT cfg0" by (simp add: cfg0_def)
  have "\<forall>(k, u) \<in> set (users (run cfg0 (take 3 spend_events))). 0 \<le> balance u"
    using balances_never_negative [OF f, where evs = spend_events] by blast
  then have 1: "list_all (\<lambda>(k, u). 0 \<le> balance u) (users (run cfg0 spend_events))"
    by (simp add: list_all_iff spend_events_def)
  have 2: "map (\<lambda>(k, u). balance u) (users (run cfg0 spend_events)) = [0]"
    by (simp add: spend_events_def run_eval cmd_faucet_def cmd_withdraw_def cfg0_def private_msg_def
        db_eval dec_eval)
  from f 1 2 show ?thesis by simp
qed

section \<open>Facts about the tip loop\<close>

lemma crowd_db_eq:
  "crowd_db =
     \<lparr>users = [(1, \<lparr>username = ''alice'', deposit_address = None, credited_total = 0,
                      balance = 50, last_faucet_ts = 10000, last_active_ts = 10000,
                      created_ts = 10000\<rparr>),
               (2, \<lparr>username = ''bob'', deposit_address = None, credited_total = 0,
                      balance = 0, last_faucet_ts = 0, last_active_ts = 10000,
                      created_ts = 10000\<rparr>),
               (3, \<lparr>username = ''carol'', deposit_address = None, credited_total = 0,
                      balance = 0, last_faucet_ts = 0, last_active_ts = 10000,
                      created_ts = 10000\<rparr>),
               (4, \<lparr>username = ''dave'', deposit_address = None, credited_total = 0,
                      balance = 0, last_faucet_ts = 0, last_active_ts = 10000,
                      created_ts = 10000\<rparr>)],
      transfers = [\<lparr>kind = Faucet, from_tg = None, to_tg = Some 1, amount = 50, txid = None,
                    ts = 10000\<rparr>]\<rparr>"
  by (simp add: crowd_db_def run_eval cmd_faucet_def mark_active_def cfg0_def private_msg_def
      group_msg_def db_eval dec_eval)

lemma db_get_user_None_iff: "db_get_user d k = None \<longleftrightarrow> k \<notin> fst ` set (users d)"
  by (simp add: db_get_user_def map_of_eq_None_iff)

lemma keys_update_user [simp]: "map fst (users (update_user k f d)) = map fst (users d)"
  by simp

lemma keys_update_balance [simp]: "map fst (users (db_update_balance k b d)) = map fst (users d)"
  by (simp add: db_update_balance_def)

lemma keys_set_active [simp]: "map fst (users (db_set_active now k d)) = map fst (users d)"
  by (simp add: db_set_active_def)

lemma db_get_user_set_active:
  "db_get_user (db_set_active now k d) k' =
     (if k' = k then map_option (\<lambda>u. u\<lparr>last_active_ts := now\<rparr>) (db_get_user d k) else db_get_user d k')"
  by (simp add: db_set_active_def db_get_user_update_user)

lemma transfers_set_active [simp]: "transfers (db_set_active now k d) = transfers d"
  by (simp add: db_set_active_def)

lemma active_ids_subset: "set (active_ids cfg now d) \<subseteq> fst ` set (users d)"
  by (auto simp: active_ids_def)

lemma distinct_active_ids: "distinct (map fst (users d)) \<Longrightarrow> distinct (active_ids cfg now d)"
  by (simp add: active_ids_def distinct_map_filter)

lemma tip_each_effect:
  assumes "distinct uids" and "set uids \<subseteq> fst ` set (users d)"
  shows "\<exists>d'. tip_each now s share uids d = Inr d'
           \<and> (\<forall>k. db_get_user d' k =
                 (if k \<in> set uids
                  then map_option (\<lambda>v. v\<lparr>balance := dec_add (balance v) share\<rparr>) (db_get_user d k)
                  else db_get_user d k))
           \<and> transfers d' = transfers d @
                map (\<lambda>uid. \<lparr>kind = Tip, from_tg = Some s, to_tg = Some uid, amount = share,
                             txid = None, ts = now\<rparr>) uids
           \<and> map fst (users d') = map fst (users d)"
  using assms
proof (induction uids arbitrary: d)
  case Nil
  then show ?case by simp
next
  case (Cons uid uids)
  from Cons.prems obtain u where u: "db_get_user d uid = Some u"
    using db_get_user_None_iff [of d uid] by (cases "db_get_user d uid") auto
  let ?d1 = "db_add_transfer now Tip (Some s) (Some uid) share None
               (db_update_balance uid (dec_add (balance u) share) d)"
  have keys: "map fst (users ?d1) = map fst (users d)" by simp
  then have sub: "set uids \<subseteq> fst ` set (users ?d1)"
    using Cons.prems(2) by (metis list.set_map set_subset_Cons subset_trans)
  from Cons.prems(1) have dist: "distinct uids" and notin: "uid \<notin> set uids" by simp_all
  from Cons.IH [OF dist sub] obtain d' where
    r: "tip_each now s share uids ?d1 = Inr d'"
    and g: "\<forall>k. db_get_user d' k =
                 (if k \<in> set uids
                  then map_option (\<lambda>v. v\<lparr>balance := dec_add (balance v) share\<rparr>) (db_get_user ?d1 k)
                  else db_get_user ?d1 k)"
    and t: "transfers d' = transfers ?d1 @
                map (\<lambda>uid. \<lparr>kind = Tip, from_tg = Some s, to_tg = Some uid, amount = share,
                             txid = None, ts = now\<rparr>) uids"
    and k: "map fst (users d') = map fst (users ?d1)"
    by blast
  have "tip_each now s share (uid # uids) d = Inr d'" using u r by simp
  moreover have "\<forall>k. db_get_user d' k =
                 (if k \<in> set (uid # uids)
                  then map_option (\<lambda>v. v\<lparr>balance := dec_add (balance v) share\<rparr>) (db_get_user d k)
                  else db_get_user d k)"
    using g u notin by (auto simp: db_get_user_update_balance)
  moreover have "transfers d' = transfers d @
                map (\<lambda>uid. \<lparr>kind = Tip, from_tg = Some s, to_tg = Some uid, amount = share,
                             txid = None, ts = now\<rparr>) (uid # uids)"
    using t by simp
  moreover have "map fst (users d') = map fst (users d)" using k keys by simp
  ultimately show ?case by blast
qed

lemma dec_mul_exact_below:
  assumes "on_grid share" and "0 \<le> share" and "dec_mul share (of_nat n) \<le> b" and "b < 10 ^ 10"
  shows "dec_mul share (of_nat n) = share * of_nat n"
proof (cases "share * of_nat n < 10 ^ 10")
  case True
  show ?thesis unfolding dec_mul_def
    using assms(1,2) True by (intro ctx_round_exact) (simp_all add: on_grid_mult_nat)
next
  case False
  then have "10 ^ 10 \<le> ctx_round (share * of_nat n)" by (intro ctx_round_ge_big) simp
  with assms(3,4) show ?thesis by (simp add: dec_mul_def)
qed

lemma quantize8_on_grid:
  assumes "quantize8 x = Inr s"
  shows "on_grid s"
proof -
  have "quantize8 x = Inr (of_int (trunc_int (x * 10 ^ 8)) / 10 ^ 8)"
    using assms by (simp add: quantize8_def Let_def split: if_splits)
  with assms have "s = of_int (trunc_int (x * 10 ^ 8)) / 10 ^ 8" by simp
  then show ?thesis by (simp only: on_grid_of_int)
qed

lemma keyset_update_balance [simp]:
  "fst ` set (users (db_update_balance k b d)) = fst ` set (users d)"
  by (metis keys_update_balance list.set_map)


text \<open>
  For a multiple of \<open>10^-8\<close> below \<open>10^9\<close> the rounding of the quotient to 18 significant
  digits does not reach the next multiple of \<open>10^-8\<close>: the share is the floor of the exact
  quotient.
\<close>

lemma split_share_floor:
  assumes g: "on_grid a" and pos: "0 < a" and lt: "a < 10 ^ 9" and n: "0 < n"
  shows "quantize8 (dec_div a (of_nat n)) = Inr (of_int \<lfloor>a * 10 ^ 8 / of_nat n\<rfloor> / 10 ^ 8)"
proof -
  from g obtain k where k: "a = of_int k / 10 ^ 8" by (elim on_gridE)
  define N :: rat where "N = of_nat n"
  have Npos: "0 < N" "1 \<le> N" using n by (simp_all add: N_def)
  define y where "y = a / N"
  have ypos: "0 < y" using pos Npos by (simp add: y_def)
  define F where "F = \<lfloor>a * 10 ^ 8 / N\<rfloor>"
  have ak: "a * 10 ^ 8 = of_int k" by (simp add: k)
  have kn: "of_int k / N = (of_int k :: rat) / of_int (int n)" by (simp add: N_def)
  have Fdiv: "F = k div int n" unfolding F_def ak kn by (simp only: floor_divide_of_int_eq)
  have F0: "0 \<le> F" unfolding F_def using pos Npos by simp
  have Flo: "of_int F \<le> a * 10 ^ 8 / N" unfolding F_def by simp
  have "k = (k div int n) * int n + k mod int n" by simp
  moreover have "k mod int n < int n" using n by simp
  ultimately have "k < (k div int n) * int n + int n" by linarith
  then have "k < (F + 1) * int n" by (simp add: Fdiv distrib_right)
  then have "k + 1 \<le> (F + 1) * int n" by simp
  then have "of_int (k + 1) \<le> (of_int ((F + 1) * int n) :: rat)" by (simp only: of_int_le_iff)
  then have "of_int k + 1 \<le> (of_int F + 1) * N" by (simp add: N_def)
  then have "(of_int k + 1) / N \<le> of_int F + 1" using Npos by (simp add: field_simps)
  then have Fhi: "a * 10 ^ 8 / N + 1 / N \<le> of_int F + 1"
    by (simp only: ak add_divide_distrib)
  define e where "e = adjusted y"
  have lo: "pow10 e \<le> y" unfolding e_def using ypos by (rule adjusted_bounds(1))
  have "y \<le> a" unfolding y_def using pos Npos by (simp add: field_simps)
  with lo lt have "pow10 e < pow10 9" by (simp add: pow10_def)
  then have e8: "e \<le> 8" using pow10_less_cancel [of e 9] by simp
  define j where "j = nat (9 - e)"
  have je: "int j = 9 - e" using e8 by (simp add: j_def)
  define q where "q = pow10 (e - 17)"
  have qpos: "0 < q" by (simp add: q_def)
  have "pow10 (- 8) = pow10 (int j) * q"
    using pow10_add [of "int j" "e - 17"] by (simp add: je q_def)
  then have q8: "1 / 10 ^ 8 = 10 ^ j * q" by (simp add: pow10_nat) (simp add: pow10_def)
  have "pow10 e = pow10 (int j + (e - 17)) * pow10 (17 - int j)"
    using pow10_add [of "int j + (e - 17)" "17 - int j"] by simp
  have pe: "pow10 e * 10 ^ j = 10 ^ 9"
  proof -
    have "pow10 e * pow10 (int j) = pow10 9" using pow10_add [of e "int j"] by (simp add: je)
    then show ?thesis by (simp add: pow10_nat) (simp add: pow10_def)
  qed
  text \<open>the number of recipients is below \<open>10^j\<close>\<close>
  have "pow10 e * N \<le> a" using lo Npos by (simp add: y_def field_simps)
  with lt have "pow10 e * N < 10 ^ 9" by simp
  then have "pow10 e * N < pow10 e * 10 ^ j" by (simp only: pe)
  then have Nj: "N < 10 ^ j" by simp
  define z where "z = y / q"
  define r where "r = round_half_even z"
  have cr: "dec_div a N = of_int r * q"
    using ypos by (simp add: dec_div_def ctx_round_def Let_def y_def [symmetric] q_def e_def r_def z_def)
  have qv: "q = 1 / (10 ^ 8 * 10 ^ j)"
  proof -
    have "10 ^ j * q * 10 ^ 8 = 1" using q8 by simp
    then have "q * (10 ^ 8 * 10 ^ j) = 1" by (simp add: mult.commute mult.left_commute)
    then show ?thesis by (simp add: field_simps)
  qed
  have zeq: "z = a * 10 ^ 8 / N * 10 ^ j"
    by (simp add: z_def y_def qv)
  text \<open>lower bound\<close>
  have "of_int F * 10 ^ j \<le> a * 10 ^ 8 / N * 10 ^ j"
    using mult_right_mono [OF Flo, of "10 ^ j"] by simp
  then have "of_int (F * 10 ^ j) \<le> z" by (simp add: zeq)
  then have rlo: "F * 10 ^ j \<le> r" unfolding r_def by (rule round_half_even_ge)
  text \<open>upper bound\<close>
  have "1 < 10 ^ j / N" using Nj Npos by simp
  moreover have "z + 10 ^ j / N \<le> (of_int F + 1) * 10 ^ j"
  proof -
    have "(a * 10 ^ 8 / N + 1 / N) * 10 ^ j \<le> (of_int F + 1) * 10 ^ j"
      using mult_right_mono [OF Fhi, of "10 ^ j"] by simp
    then show ?thesis by (simp add: zeq distrib_right)
  qed
  ultimately have "z + 1 < (of_int F + 1) * 10 ^ j" by linarith
  moreover have "of_int r \<le> z + 1 / 2"
    using round_half_even_near [of z] unfolding r_def by linarith
  ultimately have "of_int r < (of_int ((F + 1) * 10 ^ j) :: rat)" by simp
  then have rhi: "r < (F + 1) * 10 ^ j" by (simp only: of_int_less_iff)
  text \<open>the floor at 8 decimal places\<close>
  have d8: "dec_div a N * 10 ^ 8 = of_int r / 10 ^ j"
    by (simp add: cr qv)
  have "of_int (F * 10 ^ j) \<le> (of_int r :: rat)" using rlo by (simp only: of_int_le_iff)
  then have b1: "of_int F \<le> dec_div a N * 10 ^ 8" unfolding d8 by (simp add: field_simps)
  have "(of_int r :: rat) < of_int ((F + 1) * 10 ^ j)" using rhi by (simp only: of_int_less_iff)
  then have b2: "dec_div a N * 10 ^ 8 < of_int F + 1" unfolding d8 by (simp add: field_simps)
  from b1 b2 have fl: "\<lfloor>dec_div a N * 10 ^ 8\<rfloor> = F" by (rule floor_unique)
  have nn: "0 \<le> dec_div a N" unfolding dec_div_def using pos Npos by (intro ctx_round_nonneg) simp
  then have tr: "trunc_int (dec_div a N * 10 ^ 8) = F" using fl by (simp add: trunc_int_def)
  have "a * 10 ^ 8 * 1 \<le> a * 10 ^ 8 * N" using pos Npos by (intro mult_left_mono) simp_all
  then have "a * 10 ^ 8 / N \<le> a * 10 ^ 8" using Npos by (simp add: field_simps)
  with Flo have "of_int F \<le> a * 10 ^ 8" by linarith
  with lt have "of_int F < (10 ^ 17 :: rat)" by simp
  then have "F < 10 ^ 17" by (metis of_int_less_iff of_int_numeral of_int_power)
  with F0 have "\<not> 10 ^ 18 \<le> \<bar>F\<bar>" by simp
  then have "quantize8 (dec_div a N) = Inr (of_int F / 10 ^ 8)"
    unfolding quantize8_def Let_def tr by simp
  then show ?thesis by (simp only: N_def F_def)
qed

text \<open>
  The split tip for any amount, in terms of the share and the total as the handler computes
  them: the quotient as Decimal division returns it, cut down to 8 decimal places, and the
  Decimal product of the share and the number of recipients.
\<close>

lemma tip_split_general:
  assumes "chat m = GROUP \<or> chat m = SUPERGROUP"
    and "distinct (map fst (users d))"
    and "db_get_user d (from_id m) = Some s"
    and "0 < amt" and "amt \<le> balance s"
    and "recipients = filter (\<lambda>uid. uid \<noteq> from_id m) (active_ids cfg now d)"
    and "recipients \<noteq> []"
    and "quantize8 (dec_div amt (of_nat (length recipients))) = Inr share"
    and "dec_mul share (of_nat (length recipients)) \<le> balance s"
    and "cmd_tip cfg now m (Parsed Active amt) rnd d = (r, d')"
  shows "r = TippedActive (length recipients) share
       \<and> share = of_int \<lfloor>dec_div amt (of_nat (length recipients)) * 10 ^ 8\<rfloor> / 10 ^ 8
       \<and> db_get_user d' (from_id m) =
           Some (s\<lparr>balance := dec_sub (balance s) (dec_mul share (of_nat (length recipients))),
                   last_active_ts := now\<rparr>)
       \<and> (\<forall>k \<in> set recipients. \<exists>v. db_get_user d k = Some v
              \<and> db_get_user d' k = Some (v\<lparr>balance := dec_add (balance v) share\<rparr>)
              \<and> (on_grid (balance v) \<and> 0 \<le> balance v \<and> balance v + share < 10 ^ 10 \<longrightarrow>
                   dec_add (balance v) share = balance v + share))
       \<and> (\<forall>k. k \<noteq> from_id m \<and> k \<notin> set recipients \<longrightarrow> db_get_user d' k = db_get_user d k)
       \<and> transfers d' = transfers d @
            map (\<lambda>uid. \<lparr>kind = Tip, from_tg = Some (from_id m), to_tg = Some uid, amount = share,
                         txid = None, ts = now\<rparr>) recipients
       \<and> (on_grid (balance s) \<and> balance s < 10 ^ 10 \<longrightarrow>
            dec_sub (balance s) (dec_mul share (of_nat (length recipients)))
              = balance s - share * of_nat (length recipients))"
proof -
  let ?n = "length recipients"
  let ?tot = "dec_mul share (of_nat ?n)"
  let ?d1 = "db_update_balance (from_id m) (dec_sub (balance s) ?tot) d"
  have q0: "0 \<le> dec_div amt (of_nat ?n)"
    unfolding dec_div_def using assms(4) by (intro ctx_round_nonneg) simp
  have sh0: "0 \<le> share" using assms(8) q0 by (rule quantize8_nonneg)
  have shg: "on_grid share" using assms(8) by (rule quantize8_on_grid)
  have dist: "distinct recipients"
    unfolding assms(6) using assms(2) by (simp add: distinct_active_ids)
  have sub: "set recipients \<subseteq> fst ` set (users ?d1)"
    unfolding assms(6) using active_ids_subset [of cfg now d] by auto
  from tip_each_effect [OF dist sub, of now "from_id m" share] obtain d2 where
    r2: "tip_each now (from_id m) share recipients ?d1 = Inr d2"
    and g2: "\<forall>k. db_get_user d2 k =
                 (if k \<in> set recipients
                  then map_option (\<lambda>v. v\<lparr>balance := dec_add (balance v) share\<rparr>) (db_get_user ?d1 k)
                  else db_get_user ?d1 k)"
    and t2: "transfers d2 = transfers ?d1 @
                map (\<lambda>uid. \<lparr>kind = Tip, from_tg = Some (from_id m), to_tg = Some uid, amount = share,
                             txid = None, ts = now\<rparr>) recipients"
    by blast
  have notin: "from_id m \<notin> set recipients" by (simp add: assms(6))
  have c1: "cmd_tip cfg now m (Parsed Active amt) rnd d = tip_split now (from_id m) s amt recipients d"
    using assms(1,3,4,5,7) unfolding assms(6) by (auto simp: cmd_tip_def Let_def)
  have nl: "\<not> balance s < ?tot" using assms(9) by simp
  have c2: "tip_split now (from_id m) s amt recipients d =
              (TippedActive ?n share, db_set_active now (from_id m) d2)"
    using assms(8) nl r2 by (simp add: tip_split_def Let_def)
  have res: "r = TippedActive ?n share" "d' = db_set_active now (from_id m) d2"
    using assms(10) c1 c2 by simp_all
  have 1: "share = of_int \<lfloor>dec_div amt (of_nat ?n) * 10 ^ 8\<rfloor> / 10 ^ 8"
    using assms(8) q0 by (rule quantize8_Inr)
  have 2: "db_get_user d' (from_id m) =
           Some (s\<lparr>balance := dec_sub (balance s) ?tot, last_active_ts := now\<rparr>)"
    using g2 notin assms(3) by (simp add: res(2) db_get_user_set_active db_get_user_update_balance)
  have 3: "\<exists>v. db_get_user d k = Some v
              \<and> db_get_user d' k = Some (v\<lparr>balance := dec_add (balance v) share\<rparr>)
              \<and> (on_grid (balance v) \<and> 0 \<le> balance v \<and> balance v + share < 10 ^ 10 \<longrightarrow>
                   dec_add (balance v) share = balance v + share)"
    if "k \<in> set recipients" for k
  proof -
    from that notin have ne: "k \<noteq> from_id m" by auto
    from that have "k \<in> fst ` set (users d)"
      unfolding assms(6) using active_ids_subset [of cfg now d] by auto
    then obtain v where v: "db_get_user d k = Some v"
      using db_get_user_None_iff [of d k] by (cases "db_get_user d k") auto
    have "db_get_user d' k = Some (v\<lparr>balance := dec_add (balance v) share\<rparr>)"
      using g2 that ne v by (simp add: res(2) db_get_user_set_active db_get_user_update_balance)
    moreover have "on_grid (balance v) \<and> 0 \<le> balance v \<and> balance v + share < 10 ^ 10 \<longrightarrow>
                   dec_add (balance v) share = balance v + share"
      using shg sh0 by (simp add: dec_add_exact)
    ultimately show ?thesis using v by blast
  qed
  have 4: "\<forall>k. k \<noteq> from_id m \<and> k \<notin> set recipients \<longrightarrow> db_get_user d' k = db_get_user d k"
    using g2 by (simp add: res(2) db_get_user_set_active db_get_user_update_balance)
  have 5: "transfers d' = transfers d @
            map (\<lambda>uid. \<lparr>kind = Tip, from_tg = Some (from_id m), to_tg = Some uid, amount = share,
                         txid = None, ts = now\<rparr>) recipients"
    using t2 by (simp add: res(2))
  have 6: "dec_sub (balance s) ?tot = balance s - share * of_nat ?n"
    if "on_grid (balance s) \<and> balance s < 10 ^ 10"
  proof -
    have e: "?tot = share * of_nat ?n"
      using shg sh0 assms(9) that by (intro dec_mul_exact_below [where b = "balance s"]) simp_all
    have "dec_sub (balance s) (share * of_nat ?n) = balance s - share * of_nat ?n"
      using that shg sh0 assms(9) e by (intro dec_sub_exact) (simp_all add: on_grid_mult_nat)
    then show ?thesis by (simp only: e)
  qed
  from res(1) 1 2 3 4 5 6 show ?thesis by blast
qed

section \<open>C7: the split tip\<close>

text \<open>
  Claim C7, as amended. A split tip (\<^verbatim>\<open>/tip active amt\<close>) of an amount \<open>amt > 0\<close> that is a
  multiple of \<open>10^-8\<close> below \<open>10^9\<close>, by a sender whose balance covers \<open>amt\<close>, with \<open>n \<ge> 1\<close>
  recipients (the accounts active within the window, the sender excluded): the share is
  \<open>amt / n\<close> rounded down to 8 decimal places, the total \<open>share * n\<close> is at most \<open>amt\<close> (the
  remainder \<open>amt - share * n\<close> stays with the sender), the sender's balance becomes
  \<open>balance - share * n\<close>, the balance of each recipient becomes \<open>balance + share\<close>, no other
  balance changes, and one transfer of kind \<^verbatim>\<open>tip\<close> and amount \<open>share\<close> is appended per
  recipient, in order. The sum and the difference are Decimal operations; for balances
  that are multiples of \<open>10^-8\<close> below \<open>10^10\<close> the debit is exactly \<open>share * n\<close> and each
  credit exactly \<open>share\<close>. The table is keyed by \<open>tg_id\<close>: its keys are distinct.
\<close>

theorem split_tip_effect:
  assumes "chat m = GROUP \<or> chat m = SUPERGROUP"
    and "distinct (map fst (users d))"
    and "db_get_user d (from_id m) = Some s"
    and "0 < amt" and "amt \<le> balance s"
    and "on_grid amt" and "amt < 10 ^ 9"
    and "recipients = filter (\<lambda>uid. uid \<noteq> from_id m) (active_ids cfg now d)"
    and "recipients \<noteq> []"
    and "share = of_int \<lfloor>amt * 10 ^ 8 / of_nat (length recipients)\<rfloor> / 10 ^ 8"
    and "cmd_tip cfg now m (Parsed Active amt) rnd d = (r, d')"
  shows "r = TippedActive (length recipients) share
       \<and> share * of_nat (length recipients) \<le> amt
       \<and> db_get_user d' (from_id m) =
           Some (s\<lparr>balance := dec_sub (balance s) (share * of_nat (length recipients)),
                   last_active_ts := now\<rparr>)
       \<and> (\<forall>k \<in> set recipients. \<exists>v. db_get_user d k = Some v
              \<and> db_get_user d' k = Some (v\<lparr>balance := dec_add (balance v) share\<rparr>)
              \<and> (on_grid (balance v) \<and> 0 \<le> balance v \<and> balance v + share < 10 ^ 10 \<longrightarrow>
                   dec_add (balance v) share = balance v + share))
       \<and> (\<forall>k. k \<noteq> from_id m \<and> k \<notin> set recipients \<longrightarrow> db_get_user d' k = db_get_user d k)
       \<and> transfers d' = transfers d @
            map (\<lambda>uid. \<lparr>kind = Tip, from_tg = Some (from_id m), to_tg = Some uid, amount = share,
                         txid = None, ts = now\<rparr>) recipients
       \<and> (on_grid (balance s) \<and> balance s < 10 ^ 10 \<longrightarrow>
            dec_sub (balance s) (share * of_nat (length recipients))
              = balance s - share * of_nat (length recipients))"
proof -
  let ?n = "length recipients"
  have n: "0 < ?n" using assms(9) by simp
  have N: "0 < (of_nat ?n :: rat)" using n by simp
  have q: "quantize8 (dec_div amt (of_nat ?n)) = Inr share"
    unfolding assms(10) using assms(6,4,7) n by (rule split_share_floor)
  have "of_int \<lfloor>amt * 10 ^ 8 / of_nat ?n\<rfloor> \<le> amt * 10 ^ 8 / of_nat ?n" by simp
  then have "share \<le> amt / of_nat ?n" by (simp add: assms(10) field_simps)
  then have le: "share * of_nat ?n \<le> amt" using N by (simp add: field_simps)
  have "0 \<le> amt * 10 ^ 8 / of_nat ?n" using assms(4) by simp
  then have sh0: "0 \<le> share" by (simp add: assms(10))
  have shg: "on_grid share" unfolding assms(10) by (rule on_grid_of_int)
  have "share * of_nat ?n < 10 ^ 10" using le assms(7) by simp
  then have e: "dec_mul share (of_nat ?n) = share * of_nat ?n"
    unfolding dec_mul_def using shg sh0
    by (intro ctx_round_exact) (simp_all add: on_grid_mult_nat)
  have tb: "dec_mul share (of_nat ?n) \<le> balance s" using le assms(5) by (simp add: e)
  note t = tip_split_general [OF assms(1,2,3,4,5,8,9) q tb assms(11), unfolded e]
  from t le show ?thesis by blast
qed

lemmas tip_eval = cmd_tip_def tip_split_def tip_single_def active_ids_def

text \<open>
  Claim C7 as stated fails: a tip of 0.2999999999999999999997 split among 3 recipients
  gives each of them 0.1, not the floor 0.09999999 of a third of the amount, and takes 0.3
  from the sender, more than the amount of the tip. And a recipient whose balance is
  \<open>10^-19\<close> has the balance 1 after a share of 1: the balance has not increased by the
  share.
\<close>

theorem split_share_is_not_the_floor:
  "fst (cmd_tip cfg0 10001 (group_msg 1 ''alice'')
          (Parsed Active (2999999999999999999997 / 10 ^ 22)) 0 crowd_db) = TippedActive 3 (1 / 10)
   \<and> rat_of_int \<lfloor>2999999999999999999997 / 10 ^ 22 / 3 * 10 ^ 8 :: rat\<rfloor> / 10 ^ 8 = 9999999 / 10 ^ 8
   \<and> map (\<lambda>(k, u). balance u)
        (users (snd (cmd_tip cfg0 10001 (group_msg 1 ''alice'')
          (Parsed Active (2999999999999999999997 / 10 ^ 22)) 0 crowd_db)))
       = [497 / 10, 1 / 10, 1 / 10, 1 / 10]
   \<and> (2999999999999999999997 / 10 ^ 22 :: rat) < 50 - 497 / 10
   \<and> map (\<lambda>(k, u). balance u) (users dust_db) = [50, 1 / 10 ^ 19]
   \<and> fst (cmd_tip cfg0 10002 (group_msg 1 ''alice'') (Parsed Active 1) 0 dust_db)
       = TippedActive 1 1
   \<and> map (\<lambda>(k, u). balance u)
        (users (snd (cmd_tip cfg0 10002 (group_msg 1 ''alice'') (Parsed Active 1) 0 dust_db)))
       = [49, 1]"
  by (simp add: crowd_db_eq dust_db_eq tip_eval cfg0_def group_msg_def db_eval dec_eval)


text \<open>The amended claim for a tip of 1 split among the three other accounts of the example.\<close>

theorem split_tip_effect_witness:
  "fst (cmd_tip cfg0 10001 (group_msg 1 ''alice'') (Parsed Active 1) 0 crowd_db)
     = TippedActive 3 (33333333 / 10 ^ 8)
   \<and> map_option balance
        (db_get_user (snd (cmd_tip cfg0 10001 (group_msg 1 ''alice'') (Parsed Active 1) 0 crowd_db)) 1)
       = Some (50 - 99999999 / 10 ^ 8)
   \<and> map_option balance
        (db_get_user (snd (cmd_tip cfg0 10001 (group_msg 1 ''alice'') (Parsed Active 1) 0 crowd_db)) 3)
       = Some (33333333 / 10 ^ 8)
   \<and> map amount
        (transfers (snd (cmd_tip cfg0 10001 (group_msg 1 ''alice'') (Parsed Active 1) 0 crowd_db)))
       = [50, 33333333 / 10 ^ 8, 33333333 / 10 ^ 8, 33333333 / 10 ^ 8]"
proof -
  let ?m = "group_msg 1 ''alice''"
  let ?s = "\<lparr>username = ''alice'', deposit_address = None, credited_total = 0,
                      balance = 50, last_faucet_ts = 10000, last_active_ts = 10000,
                      created_ts = 10000\<rparr>"
  let ?sh = "33333333 / 10 ^ 8 :: decimal"
  obtain r d' where rd: "cmd_tip cfg0 10001 ?m (Parsed Active 1) 0 crowd_db = (r, d')"
    by (cases "cmd_tip cfg0 10001 ?m (Parsed Active 1) 0 crowd_db")
  have a1: "chat ?m = GROUP \<or> chat ?m = SUPERGROUP" by (simp add: group_msg_def)
  have a2: "distinct (map fst (users crowd_db))" by (simp add: crowd_db_eq)
  have a3: "db_get_user crowd_db (from_id ?m) = Some ?s"
    by (simp add: crowd_db_eq group_msg_def db_eval)
  have a6: "on_grid (1 :: decimal)" by (simp add: on_grid_def)
  have a8: "[2, 3, 4] = filter (\<lambda>uid. uid \<noteq> from_id ?m) (active_ids cfg0 10001 crowd_db)"
    by (simp add: crowd_db_eq active_ids_def cfg0_def group_msg_def)
  have a10: "?sh = of_int \<lfloor>(1 :: decimal) * 10 ^ 8 / of_nat (length [2, 3, 4 :: int])\<rfloor> / 10 ^ 8"
    by simp
  have v3: "db_get_user crowd_db 3 = Some \<lparr>username = ''carol'', deposit_address = None,
                      credited_total = 0, balance = 0, last_faucet_ts = 0, last_active_ts = 10000,
                      created_ts = 10000\<rparr>"
    by (simp add: crowd_db_eq db_eval)
  have e1: "dec_sub 50 (?sh * 3) = 50 - 99999999 / 10 ^ 8" by (simp add: dec_eval)
  have e2: "dec_add 0 ?sh = ?sh" by (simp add: dec_eval)
  note t = split_tip_effect [OF a1 a2 a3 _ _ a6 _ a8 _ a10 rd]
  have "r = TippedActive 3 ?sh" using t by simp
  moreover have "map_option balance (db_get_user d' 1) = Some (50 - 99999999 / 10 ^ 8)"
    using t e1 by (simp add: group_msg_def)
  moreover have "map_option balance (db_get_user d' 3) = Some ?sh"
    using t v3 e2 by simp
  moreover have "map amount (transfers d') = [50, ?sh, ?sh, ?sh]"
    using t by (simp add: crowd_db_eq)
  ultimately show ?thesis unfolding rd by simp
qed

section \<open>Facts about the ledger invariant\<close>

lemma recorded_add_transfer:
  "recorded k' (db_add_transfer now k f t a x d) = recorded k' d + (if k = k' then a else 0)"
  by (simp add: recorded_def)

lemma recorded_users_update [simp]: "recorded k (d\<lparr>users := x\<rparr>) = recorded k d"
  by (simp add: recorded_def)

lemma issued_users_update [simp]: "issued (d\<lparr>users := x\<rparr>) = issued d"
  by (simp add: issued_def)

lemma recorded_update_user [simp]: "recorded k (update_user i f d) = recorded k d"
  by (simp add: recorded_def)

lemma issued_update_user [simp]: "issued (update_user i f d) = issued d"
  by (simp add: issued_def)

lemma issued_add_transfer:
  "issued (db_add_transfer now k f t a x d) = issued d + (if k = Deposit \<or> k = Faucet then a else 0)"
  by (auto simp: issued_def recorded_add_transfer)

lemma sum_balances_add_transfer [simp]: "sum_balances (db_add_transfer now k f t a x d) = sum_balances d"
  by (simp add: sum_balances_def)

lemma wf_rows_add_transfer [simp]: "wf_rows (db_add_transfer now k f t a x d) = wf_rows d"
  by (simp add: wf_rows_def)

lemma update_rows_Nil [simp]: "update_rows k f [] = []"
  by (simp add: update_rows_def)

lemma update_rows_Cons [simp]:
  "update_rows k f ((k', u') # rows) =
     (if k' = k then (k', f u') else (k', u')) # update_rows k f rows"
  by (simp add: update_rows_def)

lemma update_rows_absent: "map_of rows k = None \<Longrightarrow> update_rows k f rows = rows"
  by (induction rows) (auto split: if_splits)

lemma sum_rows_update:
  "distinct (map fst rows) \<Longrightarrow> map_of rows k = Some u \<Longrightarrow>
   sum_list (map (\<lambda>(k, u). balance u) (update_rows k f rows)) =
     sum_list (map (\<lambda>(k, u). balance u) rows) - balance u + balance (f u)"
proof (induction rows)
  case Nil
  then show ?case by simp
next
  case (Cons r rows)
  obtain k' u' where r: "r = (k', u')" by (cases r)
  show ?case
  proof (cases "k' = k")
    case True
    with Cons.prems r have u: "u' = u" and "map_of rows k = None"
      by (auto simp: map_of_eq_None_iff)
    then have "update_rows k f rows = rows" by (simp add: update_rows_absent)
    then show ?thesis using True r u by simp
  next
    case False
    with Cons.prems r have "distinct (map fst rows)" and "map_of rows k = Some u" by simp_all
    then have "sum_list (map (\<lambda>(k, u). balance u) (update_rows k f rows)) =
       sum_list (map (\<lambda>(k, u). balance u) rows) - balance u + balance (f u)"
      by (rule Cons.IH)
    then show ?thesis using False r by simp
  qed
qed

lemma sum_balances_update_user:
  "wf_rows d \<Longrightarrow> db_get_user d k = Some u \<Longrightarrow>
   sum_balances (update_user k f d) = sum_balances d - balance u + balance (f u)"
  by (simp add: sum_balances_def wf_rows_def db_get_user_def sum_rows_update)

lemma sum_balances_update_balance:
  "wf_rows d \<Longrightarrow> db_get_user d k = Some u \<Longrightarrow>
   sum_balances (db_update_balance k b d) = sum_balances d - balance u + b"
  by (simp add: db_update_balance_def sum_balances_update_user)

lemma sum_rows_insert:
  "sum_list (map (\<lambda>(k, u). balance u) (insert_row (k, v) rows)) =
     balance v + sum_list (map (\<lambda>(k, u). balance u) rows)"
  by (induction rows) auto

lemma set_update_rows:
  "(k', u') \<in> set (update_rows k f rows) \<Longrightarrow> \<exists>u. (k', u) \<in> set rows \<and> (u' = u \<or> u' = f u)"
  unfolding update_rows_def by (auto split: if_splits)

lemma wf_rows_update_user:
  assumes "wf_rows d"
    and "\<And>u. 0 \<le> balance u \<and> on_grid (balance u) \<and> on_grid (credited_total u) \<Longrightarrow>
          0 \<le> balance (f u) \<and> on_grid (balance (f u)) \<and> on_grid (credited_total (f u))"
  shows "wf_rows (update_user k f d)"
proof -
  have "0 \<le> balance u' \<and> on_grid (balance u') \<and> on_grid (credited_total u')"
    if "(k', u') \<in> set (update_rows k f (users d))" for k' u'
  proof -
    from set_update_rows [OF that] obtain u where
      u: "(k', u) \<in> set (users d)" and c: "u' = u \<or> u' = f u" by blast
    from u assms(1) have "0 \<le> balance u \<and> on_grid (balance u) \<and> on_grid (credited_total u)"
      by (auto simp: wf_rows_def)
    with c assms(2) show ?thesis by blast
  qed
  moreover have "distinct (map fst (update_rows k f (users d)))"
    using assms(1) by (simp add: wf_rows_def)
  ultimately show ?thesis by (auto simp: wf_rows_def)
qed

lemma wf_rows_update_balance:
  "wf_rows d \<Longrightarrow> 0 \<le> b \<Longrightarrow> on_grid b \<Longrightarrow> wf_rows (db_update_balance k b d)"
  by (simp add: db_update_balance_def wf_rows_update_user)

lemma wf_rows_get:
  "wf_rows d \<Longrightarrow> db_get_user d k = Some u \<Longrightarrow>
   0 \<le> balance u \<and> on_grid (balance u) \<and> on_grid (credited_total u)"
  by (auto simp: wf_rows_def db_get_user_def dest!: map_of_SomeD)

lemma sum_rows_nonneg:
  "(\<forall>(k, u) \<in> set rows. 0 \<le> balance u) \<Longrightarrow> 0 \<le> sum_list (map (\<lambda>(k, u). balance u) rows)"
  by (induction rows) auto

lemma member_le_sum_rows:
  "(\<forall>(k, u) \<in> set rows. 0 \<le> balance u) \<Longrightarrow> (k, u) \<in> set rows \<Longrightarrow>
   balance u \<le> sum_list (map (\<lambda>(k, u). balance u) rows)"
proof (induction rows)
  case Nil
  then show ?case by simp
next
  case (Cons r rows)
  show ?case
  proof (cases "r = (k, u)")
    case True
    with Cons.prems sum_rows_nonneg [of rows] show ?thesis by auto
  next
    case False
    with Cons have "balance u \<le> sum_list (map (\<lambda>(k, u). balance u) rows)" by auto
    moreover from Cons.prems have "0 \<le> balance (snd r)" by auto
    ultimately show ?thesis by (cases r) simp
  qed
qed

lemma balance_le_sum:
  "wf_rows d \<Longrightarrow> db_get_user d k = Some u \<Longrightarrow> balance u \<le> sum_balances d"
  unfolding wf_rows_def db_get_user_def sum_balances_def
  by (rule member_le_sum_rows) (auto dest: map_of_SomeD)

lemma sum_balances_nonneg: "wf_rows d \<Longrightarrow> 0 \<le> sum_balances d"
  unfolding wf_rows_def sum_balances_def by (rule sum_rows_nonneg) auto

text \<open>Operations that touch neither a balance nor a credited total.\<close>

lemma sum_rows_touch:
  "(\<And>u. balance (f u) = balance u) \<Longrightarrow>
   sum_list (map (\<lambda>(k, u). balance u) (update_rows k f rows)) =
     sum_list (map (\<lambda>(k, u). balance u) rows)"
  by (induction rows) (auto simp: update_rows_def)

lemma ledger_inv_touch:
  assumes "ledger_inv d" and "\<And>u. balance (f u) = balance u"
    and "\<And>u. credited_total (f u) = credited_total u"
  shows "ledger_inv (update_user k f d)"
proof -
  have "wf_rows (update_user k f d)"
    using assms by (intro wf_rows_update_user) (simp_all add: ledger_inv_def)
  moreover have "sum_balances (update_user k f d) = sum_balances d"
    using assms(2) by (simp add: sum_balances_def sum_rows_touch)
  ultimately show ?thesis using assms(1) by (simp add: ledger_inv_def)
qed

lemma ledger_inv_upsert: "ledger_inv d \<Longrightarrow> ledger_inv (db_upsert_user now k uname d)"
proof (cases "db_get_user d k")
  case (Some u)
  assume "ledger_inv d"
  then show ?thesis using Some by (simp add: db_upsert_user_def ledger_inv_touch)
next
  case None
  assume inv: "ledger_inv d"
  let ?z = "\<lparr>username = uname, deposit_address = None, credited_total = 0, balance = 0,
             last_faucet_ts = 0, last_active_ts = now, created_ts = now\<rparr>"
  let ?d' = "d\<lparr>users := insert_row (k, ?z) (users d)\<rparr>"
  from None have nk: "k \<notin> fst ` set (users d)" by (simp add: db_get_user_def map_of_eq_None_iff)
  have "wf_rows ?d'"
    using inv nk by (auto simp: ledger_inv_def wf_rows_def distinct_insert_row)
  moreover have "sum_balances ?d' = sum_balances d"
    by (simp add: sum_balances_def sum_rows_insert)
  ultimately show ?thesis using inv None by (simp add: db_upsert_user_def ledger_inv_def)
qed

lemma ledger_inv_set_active: "ledger_inv d \<Longrightarrow> ledger_inv (db_set_active now k d)"
  by (simp add: db_set_active_def ledger_inv_touch)

lemma ledger_inv_set_deposit_address: "ledger_inv d \<Longrightarrow> ledger_inv (db_set_deposit_address k a d)"
  by (simp add: db_set_deposit_address_def ledger_inv_touch)

lemma ledger_inv_get_or_create:
  "ledger_inv d \<Longrightarrow> ledger_inv (snd (get_or_create_deposit_address a k d))"
  by (auto simp: get_or_create_deposit_address_def Let_def ledger_inv_set_deposit_address
      split: option.splits)

lemma ledger_inv_cmd_start: "ledger_inv d \<Longrightarrow> ledger_inv (snd (cmd_start now m a d))"
  using ledger_inv_get_or_create [OF ledger_inv_upsert, where d1 = d and a = a and k = "from_id m"
      and now1 = now and k1 = "from_id m" and uname1 = "uname_of m"]
  by (auto simp: cmd_start_def split: prod.splits sum.splits)

lemma ledger_inv_cmd_deposit: "ledger_inv d \<Longrightarrow> ledger_inv (snd (cmd_deposit now m a d))"
  using ledger_inv_get_or_create [OF ledger_inv_upsert, where d1 = d and a = a and k = "from_id m"
      and now1 = now and k1 = "from_id m" and uname1 = "uname_of m"]
  by (auto simp: cmd_deposit_def split: prod.splits sum.splits)

lemma ledger_inv_cmd_balance: "ledger_inv d \<Longrightarrow> ledger_inv (snd (cmd_balance now m d))"
  by (auto simp: cmd_balance_def Let_def ledger_inv_upsert split: option.splits)

lemma ledger_inv_mark_active: "ledger_inv d \<Longrightarrow> ledger_inv (mark_active now m d)"
  by (simp add: mark_active_def ledger_inv_set_active ledger_inv_upsert)

lemma recorded_update_balance [simp]: "recorded k (db_update_balance i b d) = recorded k d"
  by (simp add: db_update_balance_def)

lemma issued_update_balance [simp]: "issued (db_update_balance i b d) = issued d"
  by (simp add: db_update_balance_def)

lemma recorded_upsert [simp]: "recorded k (db_upsert_user now i n d) = recorded k d"
  by (simp add: recorded_def)

lemma issued_upsert [simp]: "issued (db_upsert_user now i n d) = issued d"
  by (simp add: issued_def)

lemma wf_rows_touch:
  "wf_rows d \<Longrightarrow> (\<And>u. balance (f u) = balance u) \<Longrightarrow>
   (\<And>u. credited_total (f u) = credited_total u) \<Longrightarrow> wf_rows (update_user k f d)"
  by (rule wf_rows_update_user) simp_all

lemma sum_balances_touch:
  "(\<And>u. balance (f u) = balance u) \<Longrightarrow> sum_balances (update_user k f d) = sum_balances d"
  by (simp add: sum_balances_def sum_rows_touch)

lemma ledger_inv_bounds:
  assumes "ledger_inv d" and "issued d < 10 ^ 10"
  shows "sum_balances d \<le> issued d" and "sum_balances d < 10 ^ 10" and "wf_rows d"
    and "0 \<le> issued d"
proof -
  from assms(1) have w: "wf_rows d" and r: "0 \<le> recorded Withdraw d"
    and c: "sum_balances d = issued d - recorded Withdraw d"
    by (simp_all add: ledger_inv_def)
  show "sum_balances d \<le> issued d" using r c by simp
  then show "sum_balances d < 10 ^ 10" using assms(2) by simp
  show "wf_rows d" by (rule w)
  show "0 \<le> issued d" using sum_balances_nonneg [OF w] r c by simp
qed

lemma ledger_invI:
  "wf_rows d \<Longrightarrow> 0 \<le> recorded Withdraw d \<Longrightarrow> sum_balances d = issued d - recorded Withdraw d
   \<Longrightarrow> ledger_inv d"
  by (simp add: ledger_inv_def)

text \<open>A withdrawal.\<close>

lemma issued_cmd_withdraw [simp]: "issued (snd (cmd_withdraw cfg now m args send d)) = issued d"
  by (auto simp: cmd_withdraw_def Let_def issued_add_transfer split: option.splits prod.splits)

lemma ledger_inv_withdraw_commit:
  assumes inv: "ledger_inv d1" and lt: "issued d1 < 10 ^ 10"
    and u: "db_get_user d1 k = Some u" and a: "0 < amt" "amt \<le> balance u" "on_grid amt"
  shows "ledger_inv (db_add_transfer now Withdraw (Some k) None amt (Some tx)
           (db_update_balance k (dec_sub (balance u) amt) d1))"
proof -
  note b = ledger_inv_bounds [OF inv lt]
  from wf_rows_get [OF b(3) u] have g: "0 \<le> balance u" "on_grid (balance u)" by simp_all
  have "balance u \<le> sum_balances d1" using b(3) u by (rule balance_le_sum)
  with b(2) have "balance u < 10 ^ 10" by simp
  with g a have e: "dec_sub (balance u) amt = balance u - amt"
    by (intro dec_sub_exact) simp_all
  have w: "wf_rows (db_update_balance k (balance u - amt) d1)"
    using b(3) a g by (intro wf_rows_update_balance) (simp_all add: on_grid_diff)
  have s: "sum_balances (db_update_balance k (balance u - amt) d1) = sum_balances d1 - amt"
    using sum_balances_update_balance [OF b(3) u, of "balance u - amt"] by simp
  from inv have r: "0 \<le> recorded Withdraw d1"
    and c: "sum_balances d1 = issued d1 - recorded Withdraw d1"
    by (simp_all add: ledger_inv_def)
  show ?thesis unfolding e
    using w s r c a(1)
    by (intro ledger_invI) (simp_all add: recorded_add_transfer issued_add_transfer)
qed

lemma ledger_inv_cmd_withdraw:
  assumes "ledger_inv d" and "grid_event (EvWithdraw now m args send)" and "issued d < 10 ^ 10"
  shows "ledger_inv (snd (cmd_withdraw cfg now m args send d))"
proof -
  let ?d1 = "db_upsert_user now (from_id m) (uname_of m) d"
  have i1: "ledger_inv ?d1" using assms(1) by (rule ledger_inv_upsert)
  have l1: "issued ?d1 < 10 ^ 10" using assms(3) by simp
  have commit: "ledger_inv (db_add_transfer now Withdraw (Some (from_id m)) None amt (Some tx)
           (db_update_balance (from_id m) (dec_sub (balance u) amt) ?d1))"
    if "args = Some (Some amt, address)" "db_get_user ?d1 (from_id m) = Some u"
       "0 < amt" "amt \<le> balance u" for amt address u tx
  proof -
    from that(1) assms(2) have "on_grid amt" by (simp add: grid_event_def)
    with i1 l1 that(2,3,4) show ?thesis by (intro ledger_inv_withdraw_commit)
  qed
  show ?thesis
    using i1 assms(1) commit
    by (auto simp: cmd_withdraw_def Let_def not_less split: option.splits prod.splits)
qed

text \<open>A faucet claim.\<close>

lemma recorded_set_last_faucet [simp]: "recorded k (db_set_last_faucet i t d) = recorded k d"
  by (simp add: db_set_last_faucet_def)

lemma issued_set_last_faucet [simp]: "issued (db_set_last_faucet i t d) = issued d"
  by (simp add: db_set_last_faucet_def)

lemma issued_cmd_faucet:
  "issued (snd (cmd_faucet cfg now m d)) = issued d \<or>
   issued (snd (cmd_faucet cfg now m d)) = issued d + FAUCET_AMOUNT cfg"
  by (auto simp: cmd_faucet_def Let_def issued_add_transfer split: option.splits)

lemma ledger_inv_cmd_faucet:
  assumes inv: "ledger_inv d" and f: "on_grid (FAUCET_AMOUNT cfg)" "0 \<le> FAUCET_AMOUNT cfg"
    and lt: "issued (snd (cmd_faucet cfg now m d)) < 10 ^ 10"
  shows "ledger_inv (snd (cmd_faucet cfg now m d))"
proof -
  let ?d1 = "db_upsert_user now (from_id m) (uname_of m) d"
  let ?F = "FAUCET_AMOUNT cfg"
  have i1: "ledger_inv ?d1" using inv by (rule ledger_inv_upsert)
  show ?thesis
  proof (cases "db_get_user ?d1 (from_id m)")
    case None
    then show ?thesis using i1 by (simp add: cmd_faucet_def)
  next
    case (Some u)
    show ?thesis
    proof (cases "now - last_faucet_ts u < FAUCET_INTERVAL cfg")
      case True
      then show ?thesis using i1 Some by (simp add: cmd_faucet_def)
    next
      case False
      let ?nb = "dec_add (balance u) ?F"
      let ?d' = "db_add_transfer now Faucet None (Some (from_id m)) ?F None
                   (db_set_last_faucet (from_id m) now (db_update_balance (from_id m) ?nb ?d1))"
      have res: "snd (cmd_faucet cfg now m d) = ?d'"
        using Some False by (simp add: cmd_faucet_def Let_def)
      with lt have l': "issued d + ?F < 10 ^ 10" by (simp add: issued_add_transfer)
      with f(2) have l1: "issued ?d1 < 10 ^ 10" by simp
      note b = ledger_inv_bounds [OF i1 l1]
      from wf_rows_get [OF b(3) Some] have g: "0 \<le> balance u" "on_grid (balance u)" by simp_all
      have "balance u \<le> sum_balances ?d1" using b(3) Some by (rule balance_le_sum)
      with b(1) l' have "balance u + ?F < 10 ^ 10" by simp
      with g f have e: "?nb = balance u + ?F" by (intro dec_add_exact) simp_all
      have w: "wf_rows (db_update_balance (from_id m) (balance u + ?F) ?d1)"
        using b(3) g f by (intro wf_rows_update_balance) (simp_all add: on_grid_add)
      then have w2: "wf_rows (db_set_last_faucet (from_id m) now
                       (db_update_balance (from_id m) (balance u + ?F) ?d1))"
        unfolding db_set_last_faucet_def by (rule wf_rows_touch) simp_all
      have s: "sum_balances (db_set_last_faucet (from_id m) now
                 (db_update_balance (from_id m) (balance u + ?F) ?d1)) = sum_balances ?d1 + ?F"
        using sum_balances_update_balance [OF b(3) Some, of "balance u + ?F"]
        by (simp add: db_set_last_faucet_def sum_balances_touch)
      from i1 have r: "0 \<le> recorded Withdraw ?d1"
        and c: "sum_balances ?d1 = issued ?d1 - recorded Withdraw ?d1"
        by (simp_all add: ledger_inv_def)
      have "ledger_inv ?d'" unfolding e
        using w2 s r c
        by (intro ledger_invI) (simp_all add: recorded_add_transfer issued_add_transfer)
      then show ?thesis by (simp only: res)
    qed
  qed
qed

text \<open>Tips.\<close>

lemma recorded_set_active [simp]: "recorded k (db_set_active now i d) = recorded k d"
  by (simp add: db_set_active_def)

lemma issued_set_active [simp]: "issued (db_set_active now i d) = issued d"
  by (simp add: db_set_active_def)

lemma wf_rows_set_active: "wf_rows d \<Longrightarrow> wf_rows (db_set_active now i d)"
  unfolding db_set_active_def by (rule wf_rows_touch) simp_all

lemma sum_balances_set_active [simp]: "sum_balances (db_set_active now i d) = sum_balances d"
  by (simp add: db_set_active_def sum_balances_touch)

lemma db_get_user_in_keys: "k \<in> fst ` set (users d) \<Longrightarrow> \<exists>u. db_get_user d k = Some u"
  using db_get_user_None_iff [of d k] by (cases "db_get_user d k") auto

lemma find_username_in_keys: "find_username n rows = Some uid \<Longrightarrow> uid \<in> fst ` set rows"
  by (induction rows) (auto split: if_splits)

lemma ledger_inv_tip_single:
  assumes inv: "ledger_inv d" and lt: "issued d < 10 ^ 10"
    and s: "db_get_user d sid = Some s"
    and a: "0 < amt" "amt \<le> balance s" "on_grid amt"
    and uid: "uid \<in> fst ` set (users d)"
  shows "ledger_inv (snd (tip_single now sid s amt uid d))"
proof -
  note b = ledger_inv_bounds [OF inv lt]
  from wf_rows_get [OF b(3) s] have g: "0 \<le> balance s" "on_grid (balance s)" by simp_all
  have "balance s \<le> sum_balances d" using b(3) s by (rule balance_le_sum)
  with b(2) have "balance s < 10 ^ 10" by simp
  with g a have e: "dec_sub (balance s) amt = balance s - amt"
    by (intro dec_sub_exact) simp_all
  let ?d1 = "db_update_balance sid (balance s - amt) d"
  have w1: "wf_rows ?d1"
    using b(3) a g by (intro wf_rows_update_balance) (simp_all add: on_grid_diff)
  have s1: "sum_balances ?d1 = sum_balances d - amt"
    using sum_balances_update_balance [OF b(3) s, of "balance s - amt"] by simp
  from uid have "uid \<in> fst ` set (users ?d1)" by simp
  then obtain u where u: "db_get_user ?d1 uid = Some u" using db_get_user_in_keys by blast
  from wf_rows_get [OF w1 u] have gu: "0 \<le> balance u" "on_grid (balance u)" by simp_all
  have "balance u \<le> sum_balances ?d1" using w1 u by (rule balance_le_sum)
  with s1 b(2) have "balance u + amt < 10 ^ 10" by simp
  with gu a have e2: "dec_add (balance u) amt = balance u + amt"
    by (intro dec_add_exact) simp_all
  let ?d2 = "db_update_balance uid (balance u + amt) ?d1"
  have w2: "wf_rows ?d2"
    using w1 gu a by (intro wf_rows_update_balance [where d = "?d1"]) (simp_all add: on_grid_add)
  have s2: "sum_balances ?d2 = sum_balances d"
    using sum_balances_update_balance [OF w1 u, of "balance u + amt"] s1 by simp
  let ?d3 = "db_set_active now sid (db_add_transfer now Tip (Some sid) (Some uid) amt None ?d2)"
  have res: "snd (tip_single now sid s amt uid d) = ?d3"
    using u by (simp add: tip_single_def Let_def e e2)
  from inv have r: "0 \<le> recorded Withdraw d"
    and c: "sum_balances d = issued d - recorded Withdraw d"
    by (simp_all add: ledger_inv_def)
  have "ledger_inv ?d3"
    using w2 s2 r c
    by (intro ledger_invI wf_rows_set_active)
       (simp_all add: recorded_add_transfer issued_add_transfer)
  then show ?thesis by (simp only: res)
qed

lemma tip_each_sum:
  assumes "wf_rows d" and "set uids \<subseteq> fst ` set (users d)"
    and "0 \<le> share" and "on_grid share"
    and "sum_balances d + of_nat (length uids) * share < 10 ^ 10"
  shows "\<exists>d'. tip_each now s share uids d = Inr d' \<and> wf_rows d'
           \<and> sum_balances d' = sum_balances d + of_nat (length uids) * share
           \<and> recorded Withdraw d' = recorded Withdraw d \<and> issued d' = issued d"
  using assms
proof (induction uids arbitrary: d)
  case Nil
  then show ?case by simp
next
  case (Cons uid uids)
  from Cons.prems(2) obtain u where u: "db_get_user d uid = Some u"
    using db_get_user_in_keys [of uid d] by auto
  from wf_rows_get [OF Cons.prems(1) u] have gu: "0 \<le> balance u" "on_grid (balance u)"
    by simp_all
  have le: "balance u \<le> sum_balances d" using Cons.prems(1) u by (rule balance_le_sum)
  have rest: "0 \<le> of_nat (length uids) * share" using Cons.prems(3) by simp
  have tot: "sum_balances d + share + of_nat (length uids) * share < 10 ^ 10"
    using Cons.prems(5) by (simp add: algebra_simps)
  with le rest have "balance u + share < 10 ^ 10" by linarith
  with gu Cons.prems(3,4) have e: "dec_add (balance u) share = balance u + share"
    by (intro dec_add_exact) simp_all
  let ?d1 = "db_add_transfer now Tip (Some s) (Some uid) share None
               (db_update_balance uid (balance u + share) d)"
  have w1: "wf_rows ?d1"
    using Cons.prems(1,3,4) gu by (simp add: wf_rows_update_balance on_grid_add)
  have s1: "sum_balances ?d1 = sum_balances d + share"
    using sum_balances_update_balance [OF Cons.prems(1) u, of "balance u + share"] by simp
  have k1: "set uids \<subseteq> fst ` set (users ?d1)" using Cons.prems(2) by simp
  have b1: "sum_balances ?d1 + of_nat (length uids) * share < 10 ^ 10"
    using tot s1 by simp
  from Cons.IH [OF w1 k1 Cons.prems(3,4) b1] obtain d' where
    d': "tip_each now s share uids ?d1 = Inr d'" "wf_rows d'"
      "sum_balances d' = sum_balances ?d1 + of_nat (length uids) * share"
      "recorded Withdraw d' = recorded Withdraw ?d1" "issued d' = issued ?d1"
    by blast
  have "tip_each now s share (uid # uids) d = Inr d'" using u e d'(1) by simp
  moreover have "sum_balances d' = sum_balances d + of_nat (length (uid # uids)) * share"
    using d'(3) s1 by (simp add: algebra_simps)
  moreover have "recorded Withdraw d' = recorded Withdraw d" "issued d' = issued d"
    using d'(4,5) by (simp_all add: recorded_add_transfer issued_add_transfer)
  ultimately show ?case using d'(2) by blast
qed

lemma ledger_inv_tip_split:
  assumes inv: "ledger_inv d" and lt: "issued d < 10 ^ 10"
    and s: "db_get_user d sid = Some s" and a: "0 < amt"
    and sub: "set recipients \<subseteq> fst ` set (users d)"
  shows "ledger_inv (snd (tip_split now sid s amt recipients d))"
proof (cases "quantize8 (dec_div amt (of_nat (length recipients)))")
  case (Inl e)
  then show ?thesis using inv by (simp add: tip_split_def)
next
  case (Inr share)
  let ?n = "length recipients"
  let ?tot = "dec_mul share (of_nat ?n)"
  show ?thesis
  proof (cases "balance s < ?tot")
    case True
    then show ?thesis using Inr inv by (simp add: tip_split_def)
  next
    case False
    then have le: "?tot \<le> balance s" by simp
    note b = ledger_inv_bounds [OF inv lt]
    from wf_rows_get [OF b(3) s] have g: "0 \<le> balance s" "on_grid (balance s)" by simp_all
    have "balance s \<le> sum_balances d" using b(3) s by (rule balance_le_sum)
    with b(2) have bl: "balance s < 10 ^ 10" by simp
    have "0 \<le> amt / of_nat ?n" using a by simp
    then have "0 \<le> dec_div amt (of_nat ?n)" unfolding dec_div_def by (rule ctx_round_nonneg)
    with Inr have sh0: "0 \<le> share" by (rule quantize8_nonneg)
    have shg: "on_grid share" using Inr by (rule quantize8_on_grid)
    have e: "?tot = share * of_nat ?n"
      using shg sh0 le bl by (rule dec_mul_exact_below)
    have t0: "0 \<le> share * of_nat ?n" using sh0 by simp
    have e2: "dec_sub (balance s) (share * of_nat ?n) = balance s - share * of_nat ?n"
      using g shg le bl t0 unfolding e by (intro dec_sub_exact) (simp_all add: on_grid_mult_nat)
    let ?d1 = "db_update_balance sid (balance s - share * of_nat ?n) d"
    have w1: "wf_rows ?d1"
      using b(3) g shg le unfolding e
      by (intro wf_rows_update_balance) (simp_all add: on_grid_diff on_grid_mult_nat)
    have s1: "sum_balances ?d1 = sum_balances d - share * of_nat ?n"
      using sum_balances_update_balance [OF b(3) s, of "balance s - share * of_nat ?n"] by simp
    have k1: "set recipients \<subseteq> fst ` set (users ?d1)" using sub by simp
    have b1: "sum_balances ?d1 + of_nat ?n * share < 10 ^ 10"
      using s1 b(2) by (simp add: algebra_simps)
    from tip_each_sum [OF w1 k1 sh0 shg b1, of now sid] obtain d' where
      d': "tip_each now sid share recipients ?d1 = Inr d'" "wf_rows d'"
        "sum_balances d' = sum_balances ?d1 + of_nat ?n * share"
        "recorded Withdraw d' = recorded Withdraw ?d1" "issued d' = issued ?d1"
      by blast
    have res: "snd (tip_split now sid s amt recipients d) = db_set_active now sid d'"
      using Inr False d'(1) by (simp add: tip_split_def Let_def e e2)
    from inv have r: "0 \<le> recorded Withdraw d"
      and c: "sum_balances d = issued d - recorded Withdraw d"
      by (simp_all add: ledger_inv_def)
    have "sum_balances d' = sum_balances d" using d'(3) s1 by (simp add: algebra_simps)
    then have "ledger_inv (db_set_active now sid d')"
      using d'(2,4,5) r c by (intro ledger_invI wf_rows_set_active) simp_all
    then show ?thesis by (simp only: res)
  qed
qed

lemma ledger_inv_cmd_tip:
  assumes inv: "ledger_inv d" and lt: "issued d < 10 ^ 10"
    and g: "grid_event (EvTip now m args rnd)"
  shows "ledger_inv (snd (cmd_tip cfg now m args rnd d))"
proof (cases args)
  case NoArgs
  then show ?thesis using inv by (auto simp: cmd_tip_def)
next
  case Unparsed
  then show ?thesis using inv by (auto simp: cmd_tip_def)
next
  case (Parsed mode amt)
  with g have og: "on_grid amt" by (simp add: grid_event_def)
  let ?others = "filter (\<lambda>uid. uid \<noteq> from_id m) (active_ids cfg now d)"
  have sub: "set ?others \<subseteq> fst ` set (users d)"
    using active_ids_subset [of cfg now d] by auto
  show ?thesis
  proof (cases "db_get_user d (from_id m)")
    case None
    then show ?thesis using inv Parsed by (auto simp: cmd_tip_def)
  next
    case (Some s)
    show ?thesis
    proof (cases "chat m \<noteq> GROUP \<and> chat m \<noteq> SUPERGROUP \<or> amt \<le> 0 \<or> balance s < amt")
      case True
      then show ?thesis using inv Parsed Some by (auto simp: cmd_tip_def)
    next
      case False
      then have a: "0 < amt" "amt \<le> balance s" by simp_all
      have single: "ledger_inv (snd (tip_single now (from_id m) s amt uid d))"
        if "uid \<in> fst ` set (users d)" for uid
        using inv lt Some a og that by (rule ledger_inv_tip_single)
      have split: "ledger_inv (snd (tip_split now (from_id m) s amt ?others d))"
        using inv lt Some a(1) sub by (rule ledger_inv_tip_split)
      show ?thesis
      proof (cases mode)
        case Lucky
        show ?thesis
        proof (cases "?others = []")
          case True
          then show ?thesis using inv Parsed Some False Lucky by (auto simp: cmd_tip_def)
        next
          case ne: False
          then have "?others ! (rnd mod length ?others) \<in> set ?others"
            by (intro nth_mem) simp
          with sub have "?others ! (rnd mod length ?others) \<in> fst ` set (users d)" by blast
          from single [OF this] show ?thesis
            using Parsed Some False Lucky ne by (auto simp: cmd_tip_def Let_def)
        qed
      next
        case Active
        show ?thesis
        proof (cases "?others = []")
          case True
          then show ?thesis using inv Parsed Some False Active by (auto simp: cmd_tip_def)
        next
          case ne: False
          with split show ?thesis
            using Parsed Some False Active by (auto simp: cmd_tip_def Let_def)
        qed
      next
        case (Direct uname)
        show ?thesis
        proof (cases "find_username (lower uname) (users d)")
          case None
          then show ?thesis using inv Parsed Some False Direct by (auto simp: cmd_tip_def)
        next
          case (Some uid)
          then have "uid \<in> fst ` set (users d)" by (rule find_username_in_keys)
          from single [OF this] show ?thesis
            using Parsed \<open>db_get_user d (from_id m) = Some s\<close> False Direct Some
            by (auto simp: cmd_tip_def)
        qed
      qed
    qed
  qed
qed

text \<open>The deposit scanner.\<close>

lemma recorded_set_credited_total [simp]: "recorded k (db_set_credited_total i t d) = recorded k d"
  by (simp add: db_set_credited_total_def)

lemma issued_set_credited_total [simp]: "issued (db_set_credited_total i t d) = issued d"
  by (simp add: db_set_credited_total_def)

lemma db_get_user_credit_row_other:
  "k' \<noteq> k \<Longrightarrow> db_get_user (credit_row now received (k, a, c, b) d) k' = db_get_user d k'"
  by (simp add: credit_row_def Let_def db_set_defs db_get_user_update_user split: option.splits)

lemma issued_credit_row_mono: "issued d \<le> issued (credit_row now received row d)"
proof -
  obtain k a c b where row: "row = (k, a, c, b)" by (cases row)
  have "0 \<le> dec_sub t c" if "c < t" for t using that by (intro dec_sub_nonneg) simp
  then show ?thesis
    by (simp add: row credit_row_def Let_def issued_add_transfer split: option.splits)
qed

lemma ledger_inv_credit_row:
  assumes inv: "ledger_inv d" and u: "db_get_user d k = Some u"
    and cg: "on_grid c"
    and g: "\<forall>a t. received a = Some t \<longrightarrow> on_grid t"
    and lt: "issued (credit_row now received (k, a, c, balance u) d) < 10 ^ 10"
  shows "ledger_inv (credit_row now received (k, a, c, balance u) d)"
proof (cases "received a")
  case None
  then show ?thesis using inv by (simp add: credit_row_def)
next
  case (Some t)
  with g have tg: "on_grid t" by blast
  show ?thesis
  proof (cases "c < t")
    case False
    then show ?thesis using inv Some by (simp add: credit_row_def)
  next
    case True
    let ?c = c
    let ?diff = "dec_sub t ?c"
    let ?nb = "dec_add (balance u) ?diff"
    let ?d' = "db_add_transfer now Deposit None (Some k) ?diff None
                 (db_set_credited_total k t (db_update_balance k ?nb d))"
    have res: "credit_row now received (k, a, ?c, balance u) d = ?d'"
      using Some True by (simp add: credit_row_def Let_def)
    with lt have l': "issued d + ?diff < 10 ^ 10" by (simp add: issued_add_transfer)
    have d0: "0 \<le> ?diff" using True by (intro dec_sub_nonneg) simp
    with l' have l0: "issued d < 10 ^ 10" by simp
    note b = ledger_inv_bounds [OF inv l0]
    from wf_rows_get [OF b(3) u] cg have gu: "0 \<le> balance u" "on_grid (balance u)" "on_grid ?c"
      by simp_all
    have small: "t - ?c < 10 ^ 10"
    proof (rule ccontr)
      assume "\<not> t - ?c < 10 ^ 10"
      then have "10 ^ 10 \<le> ctx_round (t - ?c)" by (intro ctx_round_ge_big) simp
      with l' b(4) show False by (simp add: dec_sub_def)
    qed
    have e: "?diff = t - ?c"
      unfolding dec_sub_def using tg gu(3) True small
      by (intro ctx_round_exact) (simp_all add: on_grid_diff)
    have "balance u \<le> sum_balances d" using b(3) u by (rule balance_le_sum)
    with b(1) l' e have "balance u + (t - ?c) < 10 ^ 10" by simp
    with gu tg True have e2: "dec_add (balance u) (t - ?c) = balance u + (t - ?c)"
      by (intro dec_add_exact) (simp_all add: on_grid_diff)
    have w: "wf_rows (db_update_balance k (balance u + (t - ?c)) d)"
      using b(3) gu tg True
      by (intro wf_rows_update_balance) (simp_all add: on_grid_add on_grid_diff)
    have w2: "wf_rows (db_set_credited_total k t (db_update_balance k (balance u + (t - ?c)) d))"
      unfolding db_set_credited_total_def using w
    proof (rule wf_rows_update_user)
      fix v :: user
      assume "0 \<le> balance v \<and> on_grid (balance v) \<and> on_grid (credited_total v)"
      then show "0 \<le> balance (v\<lparr>credited_total := t\<rparr>) \<and> on_grid (balance (v\<lparr>credited_total := t\<rparr>))
                 \<and> on_grid (credited_total (v\<lparr>credited_total := t\<rparr>))"
        using tg by simp
    qed
    have s: "sum_balances (db_set_credited_total k t (db_update_balance k (balance u + (t - ?c)) d))
               = sum_balances d + (t - ?c)"
      using sum_balances_update_balance [OF b(3) u, of "balance u + (t - ?c)"]
      by (simp add: db_set_credited_total_def sum_balances_touch)
    from inv have r: "0 \<le> recorded Withdraw d"
      and c: "sum_balances d = issued d - recorded Withdraw d"
      by (simp_all add: ledger_inv_def)
    have "ledger_inv ?d'" unfolding e e2
      using w2 s r c
      by (intro ledger_invI) (simp_all add: recorded_add_transfer issued_add_transfer)
    then show ?thesis by (simp only: res)
  qed
qed

lemma scan_rows_members:
  "(k, a, c, b) \<in> set (concat (map (\<lambda>(k, u). case deposit_address u of
                              None \<Rightarrow> []
                            | Some a \<Rightarrow> [(k, a, credited_total u, balance u)]) rows))
   \<Longrightarrow> \<exists>u. (k, u) \<in> set rows \<and> c = credited_total u \<and> b = balance u"
  by (induction rows) (auto split: option.splits)

lemma scan_rows_on_grid: "wf_rows d \<Longrightarrow> \<forall>(k, a, c, bal) \<in> set (scan_rows d). on_grid c"
proof -
  assume w: "wf_rows d"
  have "on_grid c" if "(k, a, c, b) \<in> set (scan_rows d)" for k a c b
  proof -
    from scan_rows_members [OF that [unfolded scan_rows_def]] obtain u
      where "(k, u) \<in> set (users d)" "c = credited_total u" by blast
    with w show ?thesis by (auto simp: wf_rows_def)
  qed
  then show ?thesis by blast
qed

lemma issued_scan_segment_mono: "issued d \<le> issued (snd (scan_segment now received rows d))"
  by (cases "first_credit received rows") (simp_all add: scan_segment_store issued_credit_row_mono)

text \<open>
  A segment of the scanner keeps the invariant when the row it credits is as the scanner
  read it.
\<close>

lemma ledger_inv_scan_segment:
  assumes inv: "ledger_inv d"
    and rows: "\<forall>(k, a, c, bal) \<in> set rows. on_grid c"
    and fresh: "case first_credit received rows of
                  None \<Rightarrow> True
                | Some (k, a, c, bal) \<Rightarrow>
                    (case db_get_user d k of None \<Rightarrow> False | Some u \<Rightarrow> balance u = bal)"
    and g: "\<forall>a t. received a = Some t \<longrightarrow> on_grid t"
    and lt: "issued (snd (scan_segment now received rows d)) < 10 ^ 10"
  shows "ledger_inv (snd (scan_segment now received rows d))"
proof (cases "first_credit received rows")
  case None
  then show ?thesis using inv by (simp add: scan_segment_store)
next
  case (Some row)
  obtain k a c bal where row: "row = (k, a, c, bal)" by (cases row)
  from first_credit_member [OF Some] rows row have cg: "on_grid c" by auto
  from fresh Some row obtain u where u: "db_get_user d k = Some u" and b: "bal = balance u"
    by (auto split: option.splits)
  have res: "snd (scan_segment now received rows d) = credit_row now received (k, a, c, balance u) d"
    using Some row b by (simp add: scan_segment_store)
  from inv u cg g lt [unfolded res]
  have "ledger_inv (credit_row now received (k, a, c, balance u) d)"
    by (rule ledger_inv_credit_row)
  then show ?thesis by (simp only: res)
qed

text \<open>What a step adds to the amounts issued.\<close>

lemma issued_set_deposit_address [simp]: "issued (db_set_deposit_address i a d) = issued d"
  by (simp add: db_set_deposit_address_def)

lemma issued_get_or_create [simp]: "issued (snd (get_or_create_deposit_address a k d)) = issued d"
  by (simp add: get_or_create_deposit_address_def Let_def split: option.splits)

lemma issued_cmd_start [simp]: "issued (snd (cmd_start now m a d)) = issued d"
proof (cases "chat m = PRIVATE")
  case False
  then show ?thesis by (simp add: cmd_start_def)
next
  case True
  obtain r d' where g: "get_or_create_deposit_address a (from_id m)
      (db_upsert_user now (from_id m) (uname_of m) d) = (r, d')"
    by (cases "get_or_create_deposit_address a (from_id m)
      (db_upsert_user now (from_id m) (uname_of m) d)")
  have "issued d' = issued d"
    using issued_get_or_create [of a "from_id m" "db_upsert_user now (from_id m) (uname_of m) d"]
    by (simp add: g)
  then show ?thesis using True g by (cases r) (simp_all add: cmd_start_def)
qed

lemma issued_cmd_deposit [simp]: "issued (snd (cmd_deposit now m a d)) = issued d"
proof (cases "chat m = PRIVATE")
  case False
  then show ?thesis by (simp add: cmd_deposit_def)
next
  case True
  obtain r d' where g: "get_or_create_deposit_address a (from_id m)
      (db_upsert_user now (from_id m) (uname_of m) d) = (r, d')"
    by (cases "get_or_create_deposit_address a (from_id m)
      (db_upsert_user now (from_id m) (uname_of m) d)")
  have "issued d' = issued d"
    using issued_get_or_create [of a "from_id m" "db_upsert_user now (from_id m) (uname_of m) d"]
    by (simp add: g)
  then show ?thesis using True g by (cases r) (simp_all add: cmd_deposit_def)
qed

lemma issued_cmd_balance [simp]: "issued (snd (cmd_balance now m d)) = issued d"
  by (simp add: cmd_balance_def Let_def split: option.splits)

lemma issued_mark_active [simp]: "issued (mark_active now m d) = issued d"
  by (simp add: mark_active_def)

lemma issued_tip_each:
  "issued (case tip_each now s share uids d of Inl d' \<Rightarrow> d' | Inr d' \<Rightarrow> d') = issued d"
proof (induction uids arbitrary: d)
  case Nil
  then show ?case by simp
next
  case (Cons uid uids)
  show ?case
  proof (cases "db_get_user d uid")
    case None
    then show ?thesis by simp
  next
    case (Some u)
    then show ?thesis using Cons.IH by (simp add: issued_add_transfer)
  qed
qed

lemma issued_tip_split [simp]: "issued (snd (tip_split now sid s amt recipients d)) = issued d"
proof (cases "quantize8 (dec_div amt (of_nat (length recipients)))")
  case (Inl e)
  then show ?thesis by (simp add: tip_split_def)
next
  case (Inr share)
  let ?d1 = "db_update_balance sid
               (dec_sub (balance s) (dec_mul share (of_nat (length recipients)))) d"
  from issued_tip_each [of now sid share recipients ?d1] Inr show ?thesis
    by (cases "tip_each now sid share recipients ?d1") (simp_all add: tip_split_def Let_def)
qed

lemma issued_tip_single [simp]: "issued (snd (tip_single now sid s amt uid d)) = issued d"
  by (simp add: tip_single_def Let_def issued_add_transfer split: option.splits)

lemma issued_cmd_tip [simp]: "issued (snd (cmd_tip cfg now m args rnd d)) = issued d"
  by (simp add: cmd_tip_def Let_def split: tip_input.splits option.splits tip_mode.splits)

lemma issued_step_mono:
  "0 \<le> FAUCET_AMOUNT cfg \<Longrightarrow> issued (store s) \<le> issued (store (step cfg s e))"
proof (cases e)
  case (EvFaucet now m)
  assume "0 \<le> FAUCET_AMOUNT cfg"
  with issued_cmd_faucet [of cfg now m "store s"] EvFaucet show ?thesis by auto
next
  case (EvScan now received)
  let ?rows = "if rows_left s = [] then scan_rows (store s) else rows_left s"
  obtain rest d' where sg: "scan_segment now received ?rows (store s) = (rest, d')"
    by (cases "scan_segment now received ?rows (store s)")
  from issued_scan_segment_mono [of "store s" now received ?rows] sg EvScan
  show ?thesis by (simp add: Let_def)
qed simp_all

lemma ledger_inv_step:
  assumes inv: "ledger_inv (store s)"
    and rows: "\<forall>(k, a, c, bal) \<in> set (rows_left s). on_grid c"
    and f: "on_grid (FAUCET_AMOUNT cfg)" "0 \<le> FAUCET_AMOUNT cfg"
    and g: "grid_event e"
    and fresh: "fresh_event s e"
    and lt: "issued (store (step cfg s e)) < 10 ^ 10"
  shows "ledger_inv (store (step cfg s e))
       \<and> (\<forall>(k, a, c, bal) \<in> set (rows_left (step cfg s e)). on_grid c)"
proof -
  have "issued (store s) \<le> issued (store (step cfg s e))" using f(2) by (rule issued_step_mono)
  with lt have l0: "issued (store s) < 10 ^ 10" by simp
  show ?thesis
  proof (cases e)
    case (EvStart now m a)
    then show ?thesis using inv rows by (simp add: ledger_inv_cmd_start)
  next
    case (EvDeposit now m a)
    then show ?thesis using inv rows by (simp add: ledger_inv_cmd_deposit)
  next
    case (EvBalance now m)
    then show ?thesis using inv rows by (simp add: ledger_inv_cmd_balance)
  next
    case (EvWithdraw now m args send)
    with inv g l0 rows show ?thesis by (simp add: ledger_inv_cmd_withdraw)
  next
    case (EvMessage now m)
    then show ?thesis using inv rows by (simp add: ledger_inv_mark_active)
  next
    case (EvTip now m args rnd)
    with inv g l0 rows show ?thesis by (simp add: ledger_inv_cmd_tip)
  next
    case (EvFaucet now m)
    with inv f lt rows show ?thesis by (simp add: ledger_inv_cmd_faucet)
  next
    case (EvScan now received)
    let ?rows = "if rows_left s = [] then scan_rows (store s) else rows_left s"
    obtain rest d' where sg: "scan_segment now received ?rows (store s) = (rest, d')"
      by (cases "scan_segment now received ?rows (store s)")
    have st: "step cfg s e = \<lparr>store = d', rows_left = rest\<rparr>"
      using EvScan sg by (simp add: Let_def)
    from g EvScan have gr: "\<forall>a t. received a = Some t \<longrightarrow> on_grid t"
      by (simp add: grid_event_def)
    from inv have "wf_rows (store s)" by (simp add: ledger_inv_def)
    then have "\<forall>(k, a, c, bal) \<in> set (scan_rows (store s)). on_grid c" by (rule scan_rows_on_grid)
    with rows have r: "\<forall>(k, a, c, bal) \<in> set ?rows. on_grid c" by simp
    from fresh EvScan have fr: "case first_credit received ?rows of
                  None \<Rightarrow> True
                | Some (k, a, c, bal) \<Rightarrow>
                    (case db_get_user (store s) k of None \<Rightarrow> False | Some u \<Rightarrow> balance u = bal)"
      by (simp add: fresh_event_def)
    from lt st sg have l: "issued (snd (scan_segment now received ?rows (store s))) < 10 ^ 10"
      by simp
    from inv r fr gr l have "ledger_inv (snd (scan_segment now received ?rows (store s)))"
      by (rule ledger_inv_scan_segment)
    then have 1: "ledger_inv d'" by (simp add: sg)
    have "set rest \<subseteq> set ?rows"
      using scan_segment_rest [of now received ?rows "store s"] sg by simp
    with r have 2: "\<forall>(k, a, c, bal) \<in> set rest. on_grid c" by blast
    from 1 2 show ?thesis by (simp add: st)
  qed
qed

lemma ledger_inv_empty: "ledger_inv empty_db"
  by (simp add: ledger_inv_def wf_rows_def empty_db_def sum_balances_def issued_def recorded_def)

lemma fresh_run_append:
  "fresh_run cfg s (evs @ [e]) = (fresh_run cfg s evs \<and> fresh_event (foldl (step cfg) s evs) e)"
  by (induction evs arbitrary: s) simp_all

lemma ledger_inv_run:
  assumes f: "on_grid (FAUCET_AMOUNT cfg)" "0 \<le> FAUCET_AMOUNT cfg"
  shows "(\<forall>e \<in> set evs. grid_event e) \<Longrightarrow> fresh_run cfg init_state evs \<Longrightarrow>
         issued (store (run_state cfg evs)) < 10 ^ 10 \<Longrightarrow>
         ledger_inv (store (run_state cfg evs))
         \<and> (\<forall>(k, a, c, bal) \<in> set (rows_left (run_state cfg evs)). on_grid c)"
proof (induction evs rule: rev_induct)
  case Nil
  then show ?case by (simp add: run_state_def init_state_def ledger_inv_empty)
next
  case (snoc e evs)
  let ?s = "run_state cfg evs"
  have r: "run_state cfg (evs @ [e]) = step cfg ?s e" by (simp add: run_state_def)
  have "issued (store ?s) \<le> issued (store (step cfg ?s e))"
    using f(2) by (rule issued_step_mono)
  with snoc.prems(3) r have l0: "issued (store ?s) < 10 ^ 10" by simp
  from snoc.prems(2) have fr: "fresh_run cfg init_state evs" "fresh_event ?s e"
    by (simp_all add: fresh_run_append run_state_def)
  from snoc.prems(1) have ge: "grid_event e" and gs: "\<forall>e \<in> set evs. grid_event e" by simp_all
  from snoc.IH [OF gs fr(1) l0] have inv: "ledger_inv (store ?s)"
    and rows: "\<forall>(k, a, c, bal) \<in> set (rows_left ?s). on_grid c" by simp_all
  from snoc.prems(3) r have lt: "issued (store (step cfg ?s e)) < 10 ^ 10" by simp
  from inv rows f ge fr(2) lt show ?case unfolding r by (rule ledger_inv_step)
qed

lemmas scan_eval = credits_def scan_rows_def credit_row_def

lemma fee_state_eq:
  "run_state cfg0 fee_events =
     \<lparr>store =
        \<lparr>users = [(1, \<lparr>username = ''alice'', deposit_address = Some ''PaliceAddress'',
                         credited_total = 50, balance = 45, last_faucet_ts = 0,
                         last_active_ts = 200, created_ts = 0\<rparr>)],
         transfers = [\<lparr>kind = Deposit, from_tg = None, to_tg = Some 1, amount = 50, txid = None,
                       ts = 100\<rparr>,
                      \<lparr>kind = Withdraw, from_tg = Some 1, to_tg = None, amount = 5,
                       txid = Some ''tx'', ts = 200\<rparr>]\<rparr>,
      rows_left = []\<rparr>"
  by (simp add: fee_events_def run_state_def init_state_def cmd_start_def cmd_withdraw_def
      scan_eval get_or_create_deposit_address_def cfg0_def private_msg_def db_eval dec_eval)

lemma fee_run_eq:
  "run cfg0 fee_events =
     \<lparr>users = [(1, \<lparr>username = ''alice'', deposit_address = Some ''PaliceAddress'',
                      credited_total = 50, balance = 45, last_faucet_ts = 0, last_active_ts = 200,
                      created_ts = 0\<rparr>)],
      transfers = [\<lparr>kind = Deposit, from_tg = None, to_tg = Some 1, amount = 50, txid = None,
                    ts = 100\<rparr>,
                   \<lparr>kind = Withdraw, from_tg = Some 1, to_tg = None, amount = 5,
                    txid = Some ''tx'', ts = 200\<rparr>]\<rparr>"
  by (simp add: run_def fee_state_eq)

lemma fee_run_fresh: "fresh_run cfg0 init_state fee_events"
  by (simp add: fee_events_def init_state_def fresh_event_def cmd_start_def
      scan_eval get_or_create_deposit_address_def cfg0_def private_msg_def db_eval dec_eval)

text \<open>
  The run in which account 2 withdraws during a pass of the scanner: the pass credits the
  row it read before the withdrawal, and the withdrawn 100 are back in the balance.
\<close>

lemma stale_run_eq:
  "run cfg0 stale_events =
     \<lparr>users = [(1, \<lparr>username = ''alice'', deposit_address = Some ''PaliceAddress'',
                      credited_total = 50, balance = 50, last_faucet_ts = 0, last_active_ts = 0,
                      created_ts = 0\<rparr>),
               (2, \<lparr>username = ''bob'', deposit_address = Some ''PbobAddress'',
                      credited_total = 110, balance = 110, last_faucet_ts = 0,
                      last_active_ts = 201, created_ts = 0\<rparr>)],
      transfers = [\<lparr>kind = Deposit, from_tg = None, to_tg = Some 2, amount = 100, txid = None,
                    ts = 100\<rparr>,
                   \<lparr>kind = Deposit, from_tg = None, to_tg = Some 1, amount = 50, txid = None,
                    ts = 200\<rparr>,
                   \<lparr>kind = Withdraw, from_tg = Some 2, to_tg = None, amount = 100,
                    txid = Some ''tx'', ts = 201\<rparr>,
                   \<lparr>kind = Deposit, from_tg = None, to_tg = Some 2, amount = 10, txid = None,
                    ts = 202\<rparr>]\<rparr>"
  by (simp add: stale_events_def run_eval cmd_start_def cmd_withdraw_def
      scan_eval get_or_create_deposit_address_def cfg0_def private_msg_def db_eval dec_eval)

lemma stale_row_breaks_conservation:
  "sum_balances (run cfg0 stale_events) = 160
   \<and> recorded Deposit (run cfg0 stale_events) + recorded Faucet (run cfg0 stale_events)
       - recorded Withdraw (run cfg0 stale_events) = 60
   \<and> \<not> fresh_run cfg0 init_state stale_events"
proof -
  have "\<not> fresh_run cfg0 init_state stale_events"
    by (simp add: stale_events_def init_state_def fresh_event_def cmd_start_def cmd_withdraw_def
      scan_eval get_or_create_deposit_address_def cfg0_def private_msg_def db_eval dec_eval)
  then show ?thesis
    unfolding stale_run_eq by (simp add: sum_balances_def recorded_def)
qed

section \<open>C1: conservation\<close>

text \<open>
  Claim C1, as amended. For every finite sequence of operations (account creation, deposit
  credits, tips in any mode, withdrawals, faucet claims, messages) starting from the empty
  ledger, in which the faucet amount is not negative, the faucet amount, the amounts
  entered and the totals received are multiples of \<open>10^-8\<close>, the recorded deposits and
  faucet claims add up to less than \<open>10^10\<close>, and every deposit credit finds the balance of
  its account as the scanner read it (no handler has changed that balance between the
  scanner's reading of the rows and the credit): the sum of all balances equals the sum of
  the recorded deposit amounts plus the sum of the recorded faucet amounts minus the sum
  of the recorded withdraw amounts. A withdraw record carries the full amount debited, fee
  included, so the fees are not subtracted a second time; tips net to zero.
\<close>

theorem conservation:
  assumes "on_grid (FAUCET_AMOUNT cfg)" and "0 \<le> FAUCET_AMOUNT cfg"
    and "\<forall>e \<in> set evs. grid_event e"
    and "fresh_run cfg init_state evs"
    and "recorded Deposit (run cfg evs) + recorded Faucet (run cfg evs) < 10 ^ 10"
  shows "sum_balances (run cfg evs) =
           recorded Deposit (run cfg evs) + recorded Faucet (run cfg evs)
             - recorded Withdraw (run cfg evs)"
  using ledger_inv_run [OF assms(1,2,3,4)] assms(5)
  by (simp add: ledger_inv_def issued_def run_def)

text \<open>
  Claim C1 as stated fails. A deposit of 50 and a withdrawal of 5 with the fee of 1 leave
  the balance 45, and the formula of the claim gives 44: the fee is part of the recorded
  withdraw amount. And after a faucet claim of 50 and a tip of \<open>10^-19\<close> the balances add up
  to more than the 50 issued: the tip does not net to zero.
\<close>

theorem conservation_counts_fee_twice:
  "sum_balances (run cfg0 fee_events) = 45
   \<and> recorded Deposit (run cfg0 fee_events) + recorded Faucet (run cfg0 fee_events)
       - recorded Withdraw (run cfg0 fee_events) - fees_charged cfg0 (run cfg0 fee_events) = 44
   \<and> sum_balances dust_db = 50 + 1 / 10 ^ 19
   \<and> recorded Deposit dust_db + recorded Faucet dust_db - recorded Withdraw dust_db
       - fees_charged cfg0 dust_db = 50"
  unfolding fee_run_eq dust_db_eq
  by (simp add: sum_balances_def recorded_def fees_charged_def cfg0_def)

text \<open>The amended claim for the run with the deposit of 50 and the withdrawal of 5.\<close>

theorem conservation_witness:
  "sum_balances (run cfg0 fee_events) =
     recorded Deposit (run cfg0 fee_events) + recorded Faucet (run cfg0 fee_events)
       - recorded Withdraw (run cfg0 fee_events)
   \<and> recorded Deposit (run cfg0 fee_events) = 50
   \<and> recorded Withdraw (run cfg0 fee_events) = 5"
proof -
  have 1: "on_grid (FAUCET_AMOUNT cfg0)" "0 \<le> FAUCET_AMOUNT cfg0"
    by (simp_all add: cfg0_def on_grid_def)
  have 2: "\<forall>e \<in> set fee_events. grid_event e"
    by (simp add: fee_events_def grid_event_def on_grid_def)
  have 3: "recorded Deposit (run cfg0 fee_events) = 50" "recorded Faucet (run cfg0 fee_events) = 0"
    "recorded Withdraw (run cfg0 fee_events) = 5"
    by (simp_all add: fee_run_eq recorded_def)
  have 4: "recorded Deposit (run cfg0 fee_events) + recorded Faucet (run cfg0 fee_events) < 10 ^ 10"
    by (simp add: 3)
  from conservation [OF 1 2 fee_run_fresh 4] 3 show ?thesis by simp
qed


end
